theory Spec2Isabelle
  imports Main "HOL-Library.Word"
begin

section \<open>JavaScript strings and values\<close>

text \<open>
  A JavaScript string is a sequence of 16-bit UTF-16 code units; the regular expressions of
  the slug and name modules carry no \<^verbatim>\<open>u\<close> flag, so they work on code units too.
\<close>

type_synonym code_unit = "16 word"
type_synonym jsstring = "code_unit list"

definition js :: "string \<Rightarrow> jsstring" where
  "js s = map of_char s"

text \<open>
  The run-time guards \<^verbatim>\<open>!x || typeof x !== 'string'\<close> look at values that are not
  strings, so an argument is a JavaScript value. Numbers only matter through their type
  and truthiness here; they are kept as integers.
\<close>

datatype js_value = Undefined | Null | Boolean bool | Number int | Str jsstring | Object

datatype js_type = TUndefined | TObject | TBoolean | TNumber | TString

fun typeof :: "js_value \<Rightarrow> js_type" where
  "typeof Undefined = TUndefined"
| "typeof Null = TObject"
| "typeof (Boolean b) = TBoolean"
| "typeof (Number n) = TNumber"
| "typeof (Str s) = TString"
| "typeof Object = TObject"

fun truthy :: "js_value \<Rightarrow> bool" where
  "truthy Undefined = False"
| "truthy Null = False"
| "truthy (Boolean b) = b"
| "truthy (Number n) = (n \<noteq> 0)"
| "truthy (Str s) = (s \<noteq> [])"
| "truthy Object = True"

datatype js_error = SyntaxError | NotModelled

subsection \<open>Character ranges\<close>

type_synonym char_range = "code_unit \<times> code_unit"

definition in_ranges :: "char_range list \<Rightarrow> code_unit \<Rightarrow> bool" where
  "in_ranges rs c = list_ex (\<lambda>(lo, hi). lo \<le> c \<and> c \<le> hi) rs"

text \<open>WhiteSpace and LineTerminator of ECMAScript: what \<^verbatim>\<open>trim\<close> removes and \<^verbatim>\<open>\s\<close> matches.\<close>

definition whitespace_ranges :: "char_range list" where
  "whitespace_ranges =
     [(0x09, 0x0D), (0x20, 0x20), (0xA0, 0xA0), (0x1680, 0x1680), (0x2000, 0x200A),
      (0x2028, 0x2029), (0x202F, 0x202F), (0x205F, 0x205F), (0x3000, 0x3000),
      (0xFEFF, 0xFEFF)]"

definition is_whitespace :: "code_unit \<Rightarrow> bool" where
  "is_whitespace c = in_ranges whitespace_ranges c"

definition trim :: "jsstring \<Rightarrow> jsstring" where
  "trim s = rev (dropWhile is_whitespace (rev (dropWhile is_whitespace s)))"

definition is_digit :: "code_unit \<Rightarrow> bool" where
  "is_digit c = (0x30 \<le> c \<and> c \<le> 0x39)"

definition is_lower :: "code_unit \<Rightarrow> bool" where
  "is_lower c = (0x61 \<le> c \<and> c \<le> 0x7A)"

definition is_upper :: "code_unit \<Rightarrow> bool" where
  "is_upper c = (0x41 \<le> c \<and> c \<le> 0x5A)"

definition is_ascii_alnum :: "code_unit \<Rightarrow> bool" where
  "is_ascii_alnum c = (is_digit c \<or> is_upper c \<or> is_lower c)"

section \<open>Regular expressions\<close>

text \<open>
  The fragment of ECMAScript regular expressions (without the \<^verbatim>\<open>u\<close>, \<^verbatim>\<open>i\<close>, \<^verbatim>\<open>m\<close> and
  \<^verbatim>\<open>s\<close> flags) that the two modules write or build at run time: character classes with
  ranges and negation, literal and escaped characters, the anchors, alternation,
  non-capturing groups and the greedy quantifiers.
\<close>

datatype regex =
    Empty
  | Cls bool "char_range list"
  | Bol
  | Eol
  | Seq regex regex
  | Alt regex regex
  | Star regex

definition cls_mem :: "bool \<Rightarrow> char_range list \<Rightarrow> code_unit \<Rightarrow> bool" where
  "cls_mem neg rs c = (in_ranges rs c \<noteq> neg)"

text \<open>
  The backtracking matcher: \<open>ms n r s\<close> lists, in the order in which the engine tries
  them, the rests of \<open>s\<close> that remain after \<open>r\<close> has matched a prefix of \<open>s\<close>, where \<open>s\<close>
  is a suffix of an input of length \<open>n\<close>. A greedy star iterates first and gives up an
  iteration that consumed nothing, as RepeatMatcher does.
\<close>

function (sequential) ms :: "nat \<Rightarrow> regex \<Rightarrow> jsstring \<Rightarrow> jsstring list" where
  "ms n Empty s = [s]"
| "ms n (Cls neg rs) [] = []"
| "ms n (Cls neg rs) (c # cs) = (if cls_mem neg rs c then [cs] else [])"
| "ms n Bol s = (if length s = n then [s] else [])"
| "ms n Eol s = (if s = [] then [s] else [])"
| "ms n (Seq a b) s = concat (map (ms n b) (ms n a s))"
| "ms n (Alt a b) s = ms n a s @ ms n b s"
| "ms n (Star a) s =
     concat (map (\<lambda>s'. if length s' < length s then ms n (Star a) s' else []) (ms n a s))
       @ [s]"
  by pat_completeness auto
termination
  by (relation "measures [\<lambda>(n, r, s). size r, \<lambda>(n, r, s). length s]") auto

text \<open>\<^verbatim>\<open>regex.test(s)\<close> for a regex without the \<^verbatim>\<open>g\<close> and \<^verbatim>\<open>y\<close> flags: a match at some index.\<close>

definition regex_test :: "regex \<Rightarrow> jsstring \<Rightarrow> bool" where
  "regex_test r s = list_ex (\<lambda>i. ms (length s) r (drop i s) \<noteq> []) [0..<Suc (length s)]"

text \<open>
  \<^verbatim>\<open>s.replace(regex, x)\<close> for a regex with the \<^verbatim>\<open>g\<close> flag. \<open>replace_from r f whole s\<close>
  rewrites the suffix \<open>s\<close> of \<open>whole\<close>: the leftmost match is replaced by the value of
  \<open>f\<close> at the matched text, its position and the whole string; after an empty match the
  scan moves one code unit on.
\<close>

function replace_from ::
  "regex \<Rightarrow> (jsstring \<Rightarrow> nat \<Rightarrow> jsstring \<Rightarrow> jsstring) \<Rightarrow> jsstring \<Rightarrow> jsstring \<Rightarrow> jsstring"
where
  "replace_from r f whole s =
     (case ms (length whole) r s of
        [] \<Rightarrow> (case s of [] \<Rightarrow> [] | c # cs \<Rightarrow> c # replace_from r f whole cs)
      | s' # _ \<Rightarrow>
          f (take (length s - length s') s) (length whole - length s) whole @
            (if length s' < length s then replace_from r f whole s'
             else (case s of [] \<Rightarrow> [] | c # cs \<Rightarrow> c # replace_from r f whole cs)))"
  by pat_completeness auto
termination
  by (relation "measure (\<lambda>(r, f, whole, s). length s)") auto

declare replace_from.simps [simp del]

text \<open>
  GetSubstitution for a pattern without capture groups: in a replacement string only
  \<^verbatim>\<open>$$\<close>, \<^verbatim>\<open>$&\<close>, \<^verbatim>\<open>$`\<close> and \<^verbatim>\<open>$'\<close> are special.
\<close>

fun getSubstitution :: "jsstring \<Rightarrow> jsstring \<Rightarrow> jsstring \<Rightarrow> jsstring \<Rightarrow> jsstring" where
  "getSubstitution [] matched preceding following = []"
| "getSubstitution [c] matched preceding following = [c]"
| "getSubstitution (c # d # t) matched preceding following =
     (if c = 0x24 then
        (if d = 0x24 then 0x24 # getSubstitution t matched preceding following
         else if d = 0x26 then matched @ getSubstitution t matched preceding following
         else if d = 0x60 then preceding @ getSubstitution t matched preceding following
         else if d = 0x27 then following @ getSubstitution t matched preceding following
         else c # getSubstitution (d # t) matched preceding following)
      else c # getSubstitution (d # t) matched preceding following)"

definition replace_with_string :: "regex \<Rightarrow> jsstring \<Rightarrow> jsstring \<Rightarrow> jsstring" where
  "replace_with_string r replacement s =
     replace_from r
       (\<lambda>m p w. getSubstitution replacement m (take p w) (drop (p + length m) w)) s s"

definition replace_with_function :: "regex \<Rightarrow> (jsstring \<Rightarrow> jsstring) \<Rightarrow> jsstring \<Rightarrow> jsstring" where
  "replace_with_function r g s = replace_from r (\<lambda>m p w. g m) s s"

subsection \<open>Parsing a pattern\<close>

text \<open>
  \<^verbatim>\<open>new RegExp(source)\<close> throws a SyntaxError on a malformed source. Syntax outside the
  fragment (class escapes such as \<^verbatim>\<open>\d\<close>, capture groups, lookaround, lazy and bounded
  quantifiers) is reported as \<open>NotModelled\<close>; the sources the modules build never contain
  it, since they escape every backslash and parenthesis of their arguments.
\<close>

fun class_atom :: "jsstring \<Rightarrow> js_error + (code_unit \<times> jsstring)" where
  "class_atom [] = Inl SyntaxError"
| "class_atom [c] = (if c = 0x5C then Inl SyntaxError else Inr (c, []))"
| "class_atom (c # x # cs) =
     (if c = 0x5C then (if is_ascii_alnum x then Inl NotModelled else Inr (x, cs))
      else Inr (c, x # cs))"

fun range_follows :: "jsstring \<Rightarrow> bool" where
  "range_follows (d # x # cs) = (d = 0x2D \<and> x \<noteq> 0x5D)"
| "range_follows [d] = False"
| "range_follows [] = False"

lemma class_atom_shorter: "class_atom s = Inr (a, r) \<Longrightarrow> length r < length s"
  by (induction s rule: class_atom.induct) (auto split: if_splits)

function class_ranges :: "jsstring \<Rightarrow> js_error + (char_range list \<times> jsstring)" where
  "class_ranges s =
     (case s of
        [] \<Rightarrow> Inl SyntaxError
      | c # cs \<Rightarrow>
          if c = 0x5D then Inr ([], cs)
          else
            (case class_atom s of
               Inl e \<Rightarrow> Inl e
             | Inr (a, s1) \<Rightarrow>
                 if range_follows s1 then
                   (case class_atom (tl s1) of
                      Inl e \<Rightarrow> Inl e
                    | Inr (b, s2) \<Rightarrow>
                        if b < a then Inl SyntaxError
                        else
                          (case class_ranges s2 of
                             Inl e \<Rightarrow> Inl e
                           | Inr (rs, rest) \<Rightarrow> Inr ((a, b) # rs, rest)))
                 else
                   (case class_ranges s1 of
                      Inl e \<Rightarrow> Inl e
                    | Inr (rs, rest) \<Rightarrow> Inr ((a, a) # rs, rest))))"
  by pat_completeness auto
termination
proof (relation "measure length", goal_cases)
  case 1
  show ?case by simp
next
  case (2 s c cs p a s1 bp b s2)
  from 2 have "length s1 < length s" by (auto dest: class_atom_shorter)
  moreover from 2 have "length s2 < length (tl s1)" by (auto dest: class_atom_shorter)
  ultimately show ?case by simp
next
  case (3 s c cs p a s1)
  then show ?case by (auto dest: class_atom_shorter)
qed

declare class_ranges.simps [simp del]

lemma class_ranges_shorter: "class_ranges s = Inr (rs, rest) \<Longrightarrow> length rest < length s"
proof (induction s arbitrary: rs rest rule: class_ranges.induct)
  case (1 s)
  show ?case
  proof (cases s)
    case Nil
    with "1.prems" show ?thesis by (simp add: class_ranges.simps)
  next
    case (Cons c cs)
    show ?thesis
    proof (cases "c = 0x5D")
      case True
      with Cons "1.prems" show ?thesis by (simp add: class_ranges.simps)
    next
      case nc: False
      from "1.prems" Cons nc obtain a s1 where at: "class_atom s = Inr (a, s1)"
        by (subst (asm) class_ranges.simps) (auto split: sum.splits)
      have l1: "length s1 < length s" using at by (rule class_atom_shorter)
      show ?thesis
      proof (cases "range_follows s1")
        case True
        from "1.prems" Cons nc at True obtain b s2 where bt: "class_atom (tl s1) = Inr (b, s2)"
          by (subst (asm) class_ranges.simps) (auto split: sum.splits)
        have l2: "length s2 < length (tl s1)" using bt by (rule class_atom_shorter)
        from "1.prems" Cons nc at True bt have ba: "\<not> b < a"
          by (subst (asm) class_ranges.simps) (auto split: if_splits)
        from "1.prems" Cons nc at True bt ba obtain rs' where "class_ranges s2 = Inr (rs', rest)"
          by (subst (asm) class_ranges.simps) (auto split: sum.splits)
        from "1.IH"(1)[OF Cons nc at refl True bt refl ba this]
        show ?thesis using l1 l2 by simp
      next
        case False
        from "1.prems" Cons nc at False obtain rs' where "class_ranges s1 = Inr (rs', rest)"
          by (subst (asm) class_ranges.simps) (auto split: sum.splits)
        from "1.IH"(2)[OF Cons nc at refl False this]
        show ?thesis using l1 by simp
      qed
    qed
  qed
qed

definition digits_value :: "jsstring \<Rightarrow> nat" where
  "digits_value ds = foldl (\<lambda>v d. 10 * v + (unat d - 48)) 0 ds"

text \<open>The text after an opening brace, when it is a quantifier \<^verbatim>\<open>{n}\<close>, \<^verbatim>\<open>{n,}\<close> or \<^verbatim>\<open>{n,m}\<close>.\<close>

definition braces :: "jsstring \<Rightarrow> (nat \<times> nat option \<times> jsstring) option" where
  "braces s =
     (let ds = takeWhile is_digit s; r = dropWhile is_digit s in
      if ds = [] then None
      else
        (case r of
           [] \<Rightarrow> None
         | c # r' \<Rightarrow>
             if c = 0x7D then Some (digits_value ds, Some (digits_value ds), r')
             else if c = 0x2C then
               (let ds2 = takeWhile is_digit r'; r2 = dropWhile is_digit r' in
                case r2 of
                  [] \<Rightarrow> None
                | d # r3 \<Rightarrow>
                    if d = 0x7D then
                      Some (digits_value ds, if ds2 = [] then None else Some (digits_value ds2), r3)
                    else None)
             else None))"

lemma dropWhile_Cons_shorter: "dropWhile P s = c # r \<Longrightarrow> length r < length s"
  using length_dropWhile_le [of P s] by simp

lemma braces_shorter: "braces s = Some (n, m, r) \<Longrightarrow> length r < length s"
  unfolding braces_def Let_def
  by (auto split: if_splits list.splits dest!: dropWhile_Cons_shorter) 

lemma braces_shorter_snd: "braces s = Some p \<Longrightarrow> length (snd (snd p)) < length s"
  by (cases p) (auto dest: braces_shorter)

datatype token =
  TAtom regex | TBol | TEol | TBar | TOpen | TClose | TQuant nat "nat option" | TQuest

definition chr :: "code_unit \<Rightarrow> regex" where
  "chr c = Cls False [(c, c)]"

text \<open>The dot outside a class: every code unit but the line terminators.\<close>

definition dot :: regex where
  "dot = Cls True [(0x0A, 0x0A), (0x0D, 0x0D), (0x2028, 0x2029)]"

definition simple_token :: "code_unit \<Rightarrow> token" where
  "simple_token c =
     (if c = 0x5E then TBol
      else if c = 0x24 then TEol
      else if c = 0x7C then TBar
      else if c = 0x29 then TClose
      else if c = 0x2A then TQuant 0 None
      else if c = 0x2B then TQuant 1 None
      else if c = 0x3F then TQuest
      else if c = 0x2E then TAtom dot
      else TAtom (chr c))"

definition cons_token :: "token \<Rightarrow> js_error + token list \<Rightarrow> js_error + token list" where
  "cons_token t res = (case res of Inl e \<Rightarrow> Inl e | Inr ts \<Rightarrow> Inr (t # ts))"

text \<open>A class that opens with a caret is negated; a group that opens with \<^verbatim>\<open>?:\<close> captures nothing.\<close>

fun negated :: "jsstring \<Rightarrow> bool" where
  "negated (c # cs) = (c = 0x5E)"
| "negated [] = False"

fun non_capturing :: "jsstring \<Rightarrow> bool" where
  "non_capturing (c # d # cs) = (c = 0x3F \<and> d = 0x3A)"
| "non_capturing [c] = False"
| "non_capturing [] = False"

function lex :: "jsstring \<Rightarrow> js_error + token list" where
  "lex [] = Inr []"
| "lex (c # cs) =
     (if c = 0x5B then
        (case class_ranges (if negated cs then tl cs else cs) of
           Inl e \<Rightarrow> Inl e
         | Inr (rs, rest) \<Rightarrow> cons_token (TAtom (Cls (negated cs) rs)) (lex rest))
      else if c = 0x5C then
        (case cs of
           [] \<Rightarrow> Inl SyntaxError
         | x # cs' \<Rightarrow>
             if is_ascii_alnum x then Inl NotModelled
             else cons_token (TAtom (chr x)) (lex cs'))
      else if c = 0x28 then
        (if non_capturing cs then cons_token TOpen (lex (drop 2 cs))
         else Inl NotModelled)
      else if c = 0x7B then
        (case braces cs of
           Some (n, m, rest) \<Rightarrow> cons_token (TQuant n m) (lex rest)
         | None \<Rightarrow> cons_token (TAtom (chr c)) (lex cs))
      else cons_token (simple_token c) (lex cs))"
  by pat_completeness auto
termination
proof (relation "measure length", goal_cases)
  case 1
  show ?case by simp
next
  case (2 c cs p rs rest)
  then have "length rest < length (if negated cs then tl cs else cs)"
    by (auto dest: class_ranges_shorter)
  then show ?case by (auto split: if_splits)
qed (auto dest!: braces_shorter_snd)

fun seq_list :: "regex list \<Rightarrow> regex" where
  "seq_list [] = Empty"
| "seq_list [r] = r"
| "seq_list (r # rs) = Seq r (seq_list rs)"

fun alt_list :: "regex list \<Rightarrow> regex" where
  "alt_list [] = Empty"
| "alt_list [r] = r"
| "alt_list (r # rs) = Alt r (alt_list rs)"

definition quantify :: "nat \<Rightarrow> nat option \<Rightarrow> regex \<Rightarrow> js_error + regex" where
  "quantify n m r =
     (case m of
        None \<Rightarrow> Inr (seq_list (replicate n r @ [Star r]))
      | Some k \<Rightarrow>
          if k < n then Inl SyntaxError
          else if k = n then Inr (seq_list (replicate n r))
          else Inl NotModelled)"

datatype term_kind = Plain | Quantified | Assertion

text \<open>
  A frame of the parser: the alternatives of the group finished so far and the terms of
  the current alternative, both latest first.
\<close>

type_synonym frame = "regex list \<times> (regex \<times> term_kind) list"

definition close_frame :: "frame \<Rightarrow> regex" where
  "close_frame f = alt_list (rev (seq_list (rev (map fst (snd f))) # fst f))"

fun build :: "frame list \<Rightarrow> token list \<Rightarrow> js_error + regex" where
  "build [] ts = Inl SyntaxError"
| "build [f] [] = Inr (close_frame f)"
| "build (f # g # st) [] = Inl SyntaxError"
| "build ((alts, cur) # st) (TAtom r # ts) = build ((alts, (r, Plain) # cur) # st) ts"
| "build ((alts, cur) # st) (TBol # ts) = build ((alts, (Bol, Assertion) # cur) # st) ts"
| "build ((alts, cur) # st) (TEol # ts) = build ((alts, (Eol, Assertion) # cur) # st) ts"
| "build ((alts, cur) # st) (TBar # ts) =
     build ((seq_list (rev (map fst cur)) # alts, []) # st) ts"
| "build (f # st) (TOpen # ts) = build (([], []) # f # st) ts"
| "build [f] (TClose # ts) = Inl SyntaxError"
| "build (f # (alts, cur) # st) (TClose # ts) =
     build ((alts, (close_frame f, Plain) # cur) # st) ts"
| "build ((alts, []) # st) (TQuant n m # ts) = Inl SyntaxError"
| "build ((alts, (r, k) # cur) # st) (TQuant n m # ts) =
     (if k \<noteq> Plain then Inl SyntaxError
      else
        (case quantify n m r of
           Inl e \<Rightarrow> Inl e
         | Inr q \<Rightarrow> build ((alts, (q, Quantified) # cur) # st) ts))"
| "build ((alts, []) # st) (TQuest # ts) = Inl SyntaxError"
| "build ((alts, (r, k) # cur) # st) (TQuest # ts) =
     (if k = Assertion then Inl SyntaxError else Inl NotModelled)"

definition RegExp :: "jsstring \<Rightarrow> js_error + regex" where
  "RegExp source = (case lex source of Inl e \<Rightarrow> Inl e | Inr ts \<Rightarrow> build [([], [])] ts)"

section \<open>The platform\<close>

text \<open>
  \<^verbatim>\<open>String.prototype.toLowerCase\<close> and \<^verbatim>\<open>String.prototype.normalize('NFD')\<close> are defined by
  the Unicode character database, which is not part of the repository. The slug
  functions take them as parameters; nothing is assumed about them but what a theorem
  states.
\<close>

record platform =
  toLowerCase :: "jsstring \<Rightarrow> jsstring"
  normalizeNFD :: "jsstring \<Rightarrow> jsstring"

text \<open>
  An instance for the witnesses: both functions as they act on strings whose code units
  are all below U+0100 (Basic Latin and Latin-1 Supplement), where lowercasing and
  canonical decomposition work code unit by code unit.
\<close>

definition latin1_lower :: "code_unit \<Rightarrow> code_unit" where
  "latin1_lower c =
     (if is_upper c \<or> (0xC0 \<le> c \<and> c \<le> 0xDE \<and> c \<noteq> 0xD7) then c + 0x20 else c)"

definition latin1_decomposition :: "code_unit \<Rightarrow> jsstring" where
  "latin1_decomposition c =
     (if c = 0xC0 then [0x41, 0x300] else if c = 0xC1 then [0x41, 0x301]
      else if c = 0xC2 then [0x41, 0x302] else if c = 0xC3 then [0x41, 0x303]
      else if c = 0xC4 then [0x41, 0x308] else if c = 0xC5 then [0x41, 0x30A]
      else if c = 0xC7 then [0x43, 0x327]
      else if c = 0xC8 then [0x45, 0x300] else if c = 0xC9 then [0x45, 0x301]
      else if c = 0xCA then [0x45, 0x302] else if c = 0xCB then [0x45, 0x308]
      else if c = 0xCC then [0x49, 0x300] else if c = 0xCD then [0x49, 0x301]
      else if c = 0xCE then [0x49, 0x302] else if c = 0xCF then [0x49, 0x308]
      else if c = 0xD1 then [0x4E, 0x303]
      else if c = 0xD2 then [0x4F, 0x300] else if c = 0xD3 then [0x4F, 0x301]
      else if c = 0xD4 then [0x4F, 0x302] else if c = 0xD5 then [0x4F, 0x303]
      else if c = 0xD6 then [0x4F, 0x308]
      else if c = 0xD9 then [0x55, 0x300] else if c = 0xDA then [0x55, 0x301]
      else if c = 0xDB then [0x55, 0x302] else if c = 0xDC then [0x55, 0x308]
      else if c = 0xDD then [0x59, 0x301]
      else if c = 0xE0 then [0x61, 0x300] else if c = 0xE1 then [0x61, 0x301]
      else if c = 0xE2 then [0x61, 0x302] else if c = 0xE3 then [0x61, 0x303]
      else if c = 0xE4 then [0x61, 0x308] else if c = 0xE5 then [0x61, 0x30A]
      else if c = 0xE7 then [0x63, 0x327]
      else if c = 0xE8 then [0x65, 0x300] else if c = 0xE9 then [0x65, 0x301]
      else if c = 0xEA then [0x65, 0x302] else if c = 0xEB then [0x65, 0x308]
      else if c = 0xEC then [0x69, 0x300] else if c = 0xED then [0x69, 0x301]
      else if c = 0xEE then [0x69, 0x302] else if c = 0xEF then [0x69, 0x308]
      else if c = 0xF1 then [0x6E, 0x303]
      else if c = 0xF2 then [0x6F, 0x300] else if c = 0xF3 then [0x6F, 0x301]
      else if c = 0xF4 then [0x6F, 0x302] else if c = 0xF5 then [0x6F, 0x303]
      else if c = 0xF6 then [0x6F, 0x308]
      else if c = 0xF9 then [0x75, 0x300] else if c = 0xFA then [0x75, 0x301]
      else if c = 0xFB then [0x75, 0x302] else if c = 0xFC then [0x75, 0x308]
      else if c = 0xFD then [0x79, 0x301] else if c = 0xFF then [0x79, 0x308]
      else [c])"

definition latin1_platform :: platform where
  "latin1_platform =
     \<lparr>toLowerCase = map latin1_lower, normalizeNFD = (\<lambda>s. concat (map latin1_decomposition s))\<rparr>"

section \<open>The slug module\<close>

text \<open>
  The options objects of the module: every property is optional. \<^verbatim>\<open>isValidSlug\<close> reads
  \<^verbatim>\<open>allowDots\<close> only, \<^verbatim>\<open>generateUniqueSlug\<close> reads \<^verbatim>\<open>separator\<close> only. A record is the
  options argument after the parameter default \<^verbatim>\<open>= {}\<close>: an object of the declared type. A
  call that passes \<^verbatim>\<open>null\<close>, on which the destructuring throws a TypeError, or a property
  of another type is outside the model.
\<close>

record slug_options =
  separator :: "jsstring option"
  allowDots :: "bool option"

text \<open>The regex literals \<^verbatim>\<open>/^[a-z0-9]+(?:-[a-z0-9]+)*$/\<close> and \<^verbatim>\<open>/^[a-z0-9]+(?:[-.][a-z0-9]+)*$/\<close>.\<close>

definition slugPattern :: regex where
  "slugPattern =
     Seq Bol
       (Seq (Seq (Cls False [(0x61, 0x7A), (0x30, 0x39)])
               (Star (Cls False [(0x61, 0x7A), (0x30, 0x39)])))
          (Seq (Star (Seq (Cls False [(0x2D, 0x2D)])
                       (Seq (Cls False [(0x61, 0x7A), (0x30, 0x39)])
                          (Star (Cls False [(0x61, 0x7A), (0x30, 0x39)])))))
             Eol))"

definition slugWithDotsPattern :: regex where
  "slugWithDotsPattern =
     Seq Bol
       (Seq (Seq (Cls False [(0x61, 0x7A), (0x30, 0x39)])
               (Star (Cls False [(0x61, 0x7A), (0x30, 0x39)])))
          (Seq (Star (Seq (Cls False [(0x2D, 0x2D), (0x2E, 0x2E)])
                       (Seq (Cls False [(0x61, 0x7A), (0x30, 0x39)])
                          (Star (Cls False [(0x61, 0x7A), (0x30, 0x39)])))))
             Eol))"

definition isValidSlug :: "js_value \<Rightarrow> slug_options \<Rightarrow> bool" where
  "isValidSlug slug options =
     (if \<not> truthy slug \<or> typeof slug \<noteq> TString then False
      else
        (case slug of
           Str s \<Rightarrow>
             if (case allowDots options of None \<Rightarrow> False | Some b \<Rightarrow> b)
             then regex_test slugWithDotsPattern s
             else regex_test slugPattern s
         | _ \<Rightarrow> False))"

text \<open>
  The regex literals of \<^verbatim>\<open>convertToSlug\<close>: \<^verbatim>\<open>/[.*+?^${}()|[\]\\]/g\<close>,
  \<^verbatim>\<open>/[\u0300-\u036f]/g\<close>, \<^verbatim>\<open>/\./g\<close> and \<^verbatim>\<open>/[\s_]+/g\<close>.
\<close>

definition specialsPattern :: regex where
  "specialsPattern =
     Cls False
       [(0x2E, 0x2E), (0x2A, 0x2A), (0x2B, 0x2B), (0x3F, 0x3F), (0x5E, 0x5E), (0x24, 0x24),
        (0x7B, 0x7B), (0x7D, 0x7D), (0x28, 0x28), (0x29, 0x29), (0x7C, 0x7C), (0x5B, 0x5B),
        (0x5D, 0x5D), (0x5C, 0x5C)]"

definition marksPattern :: regex where
  "marksPattern = Cls False [(0x300, 0x36F)]"

definition dotPattern :: regex where
  "dotPattern = Cls False [(0x2E, 0x2E)]"

definition spacesPattern :: regex where
  "spacesPattern =
     Seq (Cls False (whitespace_ranges @ [(0x5F, 0x5F)]))
       (Star (Cls False (whitespace_ranges @ [(0x5F, 0x5F)])))"

text \<open>\<^verbatim>\<open>separator.replace(/[.*+?^${}()|[\]\\]/g, '\\$&')\<close>\<close>

definition escapeSeparator :: "jsstring \<Rightarrow> jsstring" where
  "escapeSeparator sep = replace_with_string specialsPattern [0x5C, 0x24, 0x26] sep"

definition convertToSlug :: "platform \<Rightarrow> js_value \<Rightarrow> slug_options \<Rightarrow> js_error + jsstring" where
  "convertToSlug P text options =
     (let separator = (case separator options of None \<Rightarrow> js ''-'' | Some x \<Rightarrow> x);
          allowDots = (case allowDots options of None \<Rightarrow> False | Some b \<Rightarrow> b)
      in
        if \<not> truthy text \<or> typeof text \<noteq> TString then Inr []
        else
          (case text of
             Str t \<Rightarrow>
               (let escapedSeparator = escapeSeparator separator;
                    slug0 = replace_with_string marksPattern []
                              (normalizeNFD P (trim (toLowerCase P t)));
                    slug1 = (if \<not> allowDots then replace_with_string dotPattern separator slug0
                             else slug0);
                    slug2 = replace_with_string spacesPattern separator slug1
                in
                  case RegExp (js ''[^a-z0-9'' @ escapedSeparator
                                 @ (if allowDots then [0x5C, 0x2E] else []) @ js '']'') of
                    Inl e \<Rightarrow> Inl e
                  | Inr removePattern \<Rightarrow>
                      (let slug3 = replace_with_string removePattern [] slug2 in
                       case
                         (if allowDots then
                            (case RegExp (js ''['' @ escapedSeparator @ js ''.]+'') of
                               Inl e \<Rightarrow> Inl e
                             | Inr collapsePattern \<Rightarrow>
                                 Inr (replace_with_function collapsePattern
                                        (\<lambda>match. if 0x2E \<in> set match then js ''.''
                                                  else separator)
                                        slug3))
                          else
                            (case RegExp (escapedSeparator @ js ''+'') of
                               Inl e \<Rightarrow> Inl e
                             | Inr collapsePattern \<Rightarrow>
                                 Inr (replace_with_string collapsePattern separator slug3)))
                       of
                         Inl e \<Rightarrow> Inl e
                       | Inr slug4 \<Rightarrow>
                           (case RegExp (js ''^['' @ escapedSeparator
                                           @ (if allowDots then [0x5C, 0x2E] else [])
                                           @ js '']+|['' @ escapedSeparator
                                           @ (if allowDots then [0x5C, 0x2E] else [])
                                           @ js '']+$'') of
                              Inl e \<Rightarrow> Inl e
                            | Inr trimRegex \<Rightarrow> Inr (replace_with_string trimRegex [] slug4))))
           | _ \<Rightarrow> Inr []))"

text \<open>
  The counter of \<^verbatim>\<open>generateUniqueSlug\<close> is a Number that the template literal prints in
  decimal. The loop ends after at most one step per element of \<^verbatim>\<open>existingSlugs\<close>, an array
  of fewer than \<open>2^32\<close> elements, so the counter stays an exact integer; it is a natural
  number here. A loop that did not end would be the value \<open>None\<close>.
\<close>

fun decimal :: "nat \<Rightarrow> jsstring" where
  "decimal n = (if n < 10 then [of_nat (48 + n)] else decimal (n div 10) @ [of_nat (48 + n mod 10)])"

declare decimal.simps [simp del]

partial_function (option) uniqueLoop ::
  "jsstring \<Rightarrow> jsstring \<Rightarrow> jsstring list \<Rightarrow> nat \<Rightarrow> jsstring option"
where
  "uniqueLoop baseSlug sep existingSlugs counter =
     (if baseSlug @ sep @ decimal counter \<in> set existingSlugs
      then uniqueLoop baseSlug sep existingSlugs (counter + 1)
      else Some (baseSlug @ sep @ decimal counter))"

declare uniqueLoop.simps [code]

definition generateUniqueSlug :: "jsstring \<Rightarrow> jsstring list \<Rightarrow> slug_options \<Rightarrow> jsstring option" where
  "generateUniqueSlug baseSlug existingSlugs options =
     (let separator = (case separator options of None \<Rightarrow> js ''-'' | Some x \<Rightarrow> x) in
      if baseSlug \<notin> set existingSlugs then Some baseSlug
      else uniqueLoop baseSlug separator existingSlugs 1)"

section \<open>The name module\<close>

text \<open>
  The options object of the module, as for the slug module: the argument after the
  parameter default, an object of the declared type.
\<close>

record name_options =
  allowedSpecialChars :: "jsstring list option"

text \<open>The regex literal \<^verbatim>\<open>/[.*+?^${}()|[\]\\-]/g\<close> and \<^verbatim>\<open>char.replace(..., '\\$&')\<close>.\<close>

definition nameSpecialsPattern :: regex where
  "nameSpecialsPattern =
     Cls False
       [(0x2E, 0x2E), (0x2A, 0x2A), (0x2B, 0x2B), (0x3F, 0x3F), (0x5E, 0x5E), (0x24, 0x24),
        (0x7B, 0x7B), (0x7D, 0x7D), (0x28, 0x28), (0x29, 0x29), (0x7C, 0x7C), (0x5B, 0x5B),
        (0x5D, 0x5D), (0x5C, 0x5C), (0x2D, 0x2D)]"

definition escapeChars :: "jsstring list \<Rightarrow> jsstring" where
  "escapeChars allowed =
     concat (map (\<lambda>char. replace_with_string nameSpecialsPattern [0x5C, 0x24, 0x26] char) allowed)"

definition isValidName :: "js_value \<Rightarrow> name_options \<Rightarrow> js_error + bool" where
  "isValidName name options =
     (if \<not> truthy name \<or> typeof name \<noteq> TString then Inr False
      else
        (case name of
           Str s \<Rightarrow>
             (let allowed = (case allowedSpecialChars options of None \<Rightarrow> [js '' ''] | Some l \<Rightarrow> l);
                  escapedChars = escapeChars allowed
              in
                case RegExp (js ''^[a-zA-Z0-9]+(?:['' @ escapedChars @ js ''][a-zA-Z0-9]+)*$'') of
                  Inl e \<Rightarrow> Inl e
                | Inr pattern \<Rightarrow> Inr (regex_test pattern s))
         | _ \<Rightarrow> Inr False))"

text \<open>
  The callback \<^verbatim>\<open>(match) => match[0]\<close>: the first code unit of the match; on an empty
  string \<^verbatim>\<open>match[0]\<close> is \<^verbatim>\<open>undefined\<close>, which \<^verbatim>\<open>replace\<close> prints.
\<close>

definition firstOfMatch :: "jsstring \<Rightarrow> jsstring" where
  "firstOfMatch m = (case m of [] \<Rightarrow> js ''undefined'' | c # _ \<Rightarrow> [c])"

definition normalizeName :: "js_value \<Rightarrow> name_options \<Rightarrow> js_error + jsstring" where
  "normalizeName text options =
     (if \<not> truthy text \<or> typeof text \<noteq> TString then Inr []
      else
        (case text of
           Str t \<Rightarrow>
             (let allowed = (case allowedSpecialChars options of None \<Rightarrow> [js '' ''] | Some l \<Rightarrow> l);
                  escapedChars = escapeChars allowed;
                  normalized0 = trim t
              in
                case RegExp (js ''[^a-zA-Z0-9'' @ escapedChars @ js '']'') of
                  Inl e \<Rightarrow> Inl e
                | Inr removePattern \<Rightarrow>
                    (let normalized1 = replace_with_string removePattern [] normalized0 in
                     case RegExp (js ''['' @ escapedChars @ js '']{2,}'') of
                       Inl e \<Rightarrow> Inl e
                     | Inr collapsePattern \<Rightarrow>
                         (let normalized2 =
                                replace_with_function collapsePattern firstOfMatch normalized1
                          in
                            case RegExp (js ''^['' @ escapedChars @ js '']+|['' @ escapedChars
                                           @ js '']+$'') of
                              Inl e \<Rightarrow> Inl e
                            | Inr trimPattern \<Rightarrow>
                                Inr (replace_with_string trimPattern [] normalized2))))
         | _ \<Rightarrow> Inr []))"

section \<open>Properties of the matcher\<close>

declare ms.simps(8) [simp del]

fun star_rests :: "(code_unit \<Rightarrow> bool) \<Rightarrow> jsstring \<Rightarrow> jsstring list" where
  "star_rests P [] = [[]]"
| "star_rests P (c # cs) = (if P c then star_rests P cs @ [c # cs] else [c # cs])"

lemma ms_Star_Cls: "ms n (Star (Cls neg rs)) s = star_rests (cls_mem neg rs) s"
  by (induction s) (simp_all add: ms.simps(8))

lemma star_rests_hd: "\<exists>tl. star_rests P s = dropWhile P s # tl"
  by (induction s) auto

lemma star_rests_Nil_iff: "[] \<in> set (star_rests P s) \<longleftrightarrow> list_all P s"
  by (induction s) auto

lemma ms_Plus_Cls:
  "ms n (Seq (Cls neg rs) (Star (Cls neg rs))) s =
     (case s of [] \<Rightarrow> [] | c # cs \<Rightarrow> if cls_mem neg rs c then star_rests (cls_mem neg rs) cs else [])"
  by (cases s) (simp_all add: ms_Star_Cls)

function map_runs :: "(code_unit \<Rightarrow> bool) \<Rightarrow> (jsstring \<Rightarrow> jsstring) \<Rightarrow> jsstring \<Rightarrow> jsstring" where
  "map_runs P g [] = []"
| "map_runs P g (c # cs) =
     (if P c then g (c # takeWhile P cs) @ map_runs P g (dropWhile P cs)
      else c # map_runs P g cs)"
  by pat_completeness auto
termination
  by (relation "measure (\<lambda>(P, g, s). length s)") (auto simp: length_dropWhile_le less_Suc_eq_le)

lemma take_run: "take (Suc (length cs) - length (dropWhile P cs)) (c # cs) = c # takeWhile P cs"
proof -
  have "length cs = length (takeWhile P cs) + length (dropWhile P cs)"
    by (metis length_append takeWhile_dropWhile_id)
  then have "Suc (length cs) - length (dropWhile P cs) = Suc (length (takeWhile P cs))" by simp
  moreover have "take (length (takeWhile P cs)) cs = takeWhile P cs"
    by (metis append_eq_conv_conj takeWhile_dropWhile_id)
  ultimately show ?thesis by simp
qed

lemma replace_from_Cls:
  assumes f: "\<And>c p. f [c] p whole = g c"
  shows "replace_from (Cls neg rs) f whole s =
           concat (map (\<lambda>c. if cls_mem neg rs c then g c else [c]) s)"
proof (induction s)
  case Nil
  show ?case by (simp add: replace_from.simps)
next
  case (Cons c cs)
  show ?case
    by (subst replace_from.simps) (simp add: Cons f)
qed

lemma replace_from_Plus:
  assumes f: "\<And>m p. f m p whole = g m"
  shows "replace_from (Seq (Cls neg rs) (Star (Cls neg rs))) f whole s =
           map_runs (cls_mem neg rs) g s"
proof (induction s rule: length_induct)
  case (1 s)
  show ?case
  proof (cases s)
    case Nil
    then show ?thesis by (subst replace_from.simps) (simp add: ms_Plus_Cls del: ms.simps)
  next
    case (Cons c cs)
    show ?thesis
    proof (cases "cls_mem neg rs c")
      case True
      obtain tl where tl: "star_rests (cls_mem neg rs) cs = dropWhile (cls_mem neg rs) cs # tl"
        using star_rests_hd by blast
      have len: "length (dropWhile (cls_mem neg rs) cs) < Suc (length cs)"
        by (simp add: length_dropWhile_le less_Suc_eq_le)
      with 1 Cons have IH: "replace_from (Seq (Cls neg rs) (Star (Cls neg rs))) f whole
          (dropWhile (cls_mem neg rs) cs) = map_runs (cls_mem neg rs) g (dropWhile (cls_mem neg rs) cs)"
        by simp
      show ?thesis
        unfolding Cons
        apply (subst replace_from.simps)
        using True tl len IH f
        by (simp add: ms_Plus_Cls take_run del: ms.simps)
    next
      case False
      with 1 Cons show ?thesis
        by (subst replace_from.simps) (simp add: ms_Plus_Cls del: ms.simps)
    qed
  qed
qed

definition strip_class :: "(code_unit \<Rightarrow> bool) \<Rightarrow> jsstring \<Rightarrow> jsstring" where
  "strip_class P s = rev (dropWhile P (rev (dropWhile P s)))"

lemma ms_Two_Cls:
  "ms n (Seq (Cls neg rs) (Seq (Cls neg rs) (Star (Cls neg rs)))) s =
     (case s of
        c # d # ds \<Rightarrow>
          if cls_mem neg rs c \<and> cls_mem neg rs d then star_rests (cls_mem neg rs) ds else []
      | _ \<Rightarrow> [])"
  by (cases s rule: range_follows.cases) (simp_all add: ms_Star_Cls)

lemma take_run2:
  "take (Suc (Suc (length ds)) - length (dropWhile P ds)) (c # d # ds) = c # d # takeWhile P ds"
proof -
  have "length ds = length (takeWhile P ds) + length (dropWhile P ds)"
    by (metis length_append takeWhile_dropWhile_id)
  then have "Suc (Suc (length ds)) - length (dropWhile P ds) = Suc (Suc (length (takeWhile P ds)))"
    by simp
  moreover have "take (length (takeWhile P ds)) ds = takeWhile P ds"
    by (metis append_eq_conv_conj takeWhile_dropWhile_id)
  ultimately show ?thesis by simp
qed

lemma replace_from_Two:
  assumes f: "\<And>m p. f m p whole = g m"
  shows "replace_from (Seq (Cls neg rs) (Seq (Cls neg rs) (Star (Cls neg rs)))) f whole s =
           map_runs (cls_mem neg rs) (\<lambda>m. if 2 \<le> length m then g m else m) s"
proof (induction s rule: length_induct)
  case (1 s)
  let ?P = "cls_mem neg rs"
  let ?R = "Seq (Cls neg rs) (Seq (Cls neg rs) (Star (Cls neg rs)))"
  show ?case
  proof (cases s rule: range_follows.cases)
    case (1 c d ds)
    show ?thesis
    proof (cases "?P c \<and> ?P d")
      case True
      obtain tl where tl: "star_rests ?P ds = dropWhile ?P ds # tl"
        using star_rests_hd by blast
      have len: "length (dropWhile ?P ds) < Suc (Suc (length ds))"
        using length_dropWhile_le [of ?P ds] by simp
      with "1.IH" 1 have IH: "replace_from ?R f whole (dropWhile ?P ds) =
          map_runs ?P (\<lambda>m. if 2 \<le> length m then g m else m) (dropWhile ?P ds)"
        by simp
      show ?thesis
        unfolding 1
        apply (subst replace_from.simps)
        using True tl len IH f
        by (simp add: ms_Two_Cls take_run2 del: ms.simps)
    next
      case False
      from "1.IH" 1 have IH: "replace_from ?R f whole (d # ds) =
          map_runs ?P (\<lambda>m. if 2 \<le> length m then g m else m) (d # ds)"
        by simp
      show ?thesis
        unfolding 1
        apply (subst replace_from.simps)
        using False IH
        by (auto simp add: ms_Two_Cls simp del: ms.simps)
    qed
  next
    case 3
    then show ?thesis by (subst replace_from.simps) (simp add: ms_Two_Cls del: ms.simps)
  next
    case (2 c)
    then show ?thesis
      apply (subst replace_from.simps)
      apply (simp add: ms_Two_Cls del: ms.simps)
      apply (subst replace_from.simps)
      apply (simp add: ms_Two_Cls del: ms.simps)
      done
  qed
qed

lemma ms_Eol_filter: "concat (map (ms n Eol) l) = filter (\<lambda>x. x = []) l"
  by (induction l) auto

lemma star_rests_filter_Nil:
  "filter (\<lambda>x. x = []) (star_rests P s) = (if list_all P s then [[]] else [])"
  by (induction s) auto

lemma ms_Plus_Eol:
  "ms n (Seq (Seq (Cls neg rs) (Star (Cls neg rs))) Eol) s =
     (if s \<noteq> [] \<and> list_all (cls_mem neg rs) s then [[]] else [])"
proof -
  have "ms n (Seq (Seq (Cls neg rs) (Star (Cls neg rs))) Eol) s =
      filter (\<lambda>x. x = []) (ms n (Seq (Cls neg rs) (Star (Cls neg rs))) s)"
    by (simp add: ms_Eol_filter del: ms.simps(5)) 
  then show ?thesis
    by (cases s) (simp_all add: ms_Plus_Cls star_rests_filter_Nil del: ms.simps)
qed

lemma rstrip_Cons:
  "\<not> list_all P (c # cs) \<Longrightarrow> rev (dropWhile P (rev (c # cs))) = c # rev (dropWhile P (rev cs))"
  by (auto simp: dropWhile_append list_all_iff)

lemma rstrip_all: "list_all P s \<Longrightarrow> rev (dropWhile P (rev s)) = []"
  by (simp add: list_all_iff)

definition trim_pattern :: "bool \<Rightarrow> char_range list \<Rightarrow> regex" where
  "trim_pattern neg rs =
     Alt (Seq Bol (Seq (Cls neg rs) (Star (Cls neg rs))))
         (Seq (Seq (Cls neg rs) (Star (Cls neg rs))) Eol)"

lemma ms_trim_pattern:
  "ms n (trim_pattern neg rs) s =
     (if length s = n then ms n (Seq (Cls neg rs) (Star (Cls neg rs))) s else []) @
     (if s \<noteq> [] \<and> list_all (cls_mem neg rs) s then [[]] else [])"
proof -
  have "ms n (trim_pattern neg rs) s =
      ms n (Seq Bol (Seq (Cls neg rs) (Star (Cls neg rs)))) s @
      ms n (Seq (Seq (Cls neg rs) (Star (Cls neg rs))) Eol) s"
    by (simp add: trim_pattern_def del: ms.simps(6))
  moreover have "ms n (Seq Bol (Seq (Cls neg rs) (Star (Cls neg rs)))) s =
      (if length s = n then ms n (Seq (Cls neg rs) (Star (Cls neg rs))) s else [])"
    by (subst ms.simps(6)) (simp del: ms.simps(6))
  ultimately show ?thesis by (simp only: ms_Plus_Eol)
qed

lemma replace_from_trim_tail:
  assumes "length s < length whole"
  shows "replace_from (trim_pattern neg rs) (\<lambda>m p w. []) whole s =
           rev (dropWhile (cls_mem neg rs) (rev s))"
  using assms
proof (induction s)
  case Nil
  show ?case
    by (subst replace_from.simps) (simp add: ms_trim_pattern ms_Plus_Cls del: ms.simps)
next
  case (Cons c cs)
  have ms: "ms (length whole) (trim_pattern neg rs) (c # cs) =
      (if list_all (cls_mem neg rs) (c # cs) then [[]] else [])"
    using Cons.prems
    by (simp add: ms_trim_pattern del: ms.simps)
  have nil: "replace_from (trim_pattern neg rs) (\<lambda>m p w. []) whole [] = []"
    by (subst replace_from.simps) (simp add: ms_trim_pattern ms_Plus_Cls del: ms.simps)
  show ?case
  proof (cases "list_all (cls_mem neg rs) (c # cs)")
    case True
    with ms nil rstrip_all [OF True] show ?thesis
      by (subst replace_from.simps) (simp del: ms.simps list.pred_inject rev.simps)
  next
    case False
    from Cons have "replace_from (trim_pattern neg rs) (\<lambda>m p w. []) whole cs =
        rev (dropWhile (cls_mem neg rs) (rev cs))"
      by simp
    with False ms show ?thesis
      by (subst replace_from.simps) (simp add: rstrip_Cons del: ms.simps list.pred_inject rev.simps)
  qed
qed

lemma replace_from_trim:
  "replace_from (trim_pattern neg rs) (\<lambda>m p w. []) whole whole = strip_class (cls_mem neg rs) whole"
proof (cases whole)
  case Nil
  then show ?thesis
    by (subst replace_from.simps) (simp add: ms_trim_pattern strip_class_def ms_Plus_Cls del: ms.simps)
next
  case (Cons c cs)
  let ?P = "cls_mem neg rs"
  show ?thesis
  proof (cases "?P c")
    case True
    obtain tl where tl: "star_rests ?P cs = dropWhile ?P cs # tl"
      using star_rests_hd by blast
    have len: "length (dropWhile ?P cs) < length whole"
      using length_dropWhile_le [of ?P cs] Cons by simp
    have ms': "ms (length whole) (trim_pattern neg rs) whole =
        dropWhile ?P cs # (tl @ (if list_all ?P whole then [[]] else []))"
      using True tl Cons
      by (simp add: ms_trim_pattern ms_Plus_Cls del: ms.simps)
    show ?thesis
      apply (subst replace_from.simps)
      using ms' len True Cons replace_from_trim_tail [OF len, of neg rs]
      by (simp add: strip_class_def del: ms.simps)
  next
    case False
    have ms: "ms (length whole) (trim_pattern neg rs) whole = []"
      using False Cons
      by (simp add: ms_trim_pattern ms_Plus_Cls del: ms.simps)
    have len: "length cs < length whole" using Cons by simp
    have nall: "\<not> list_all ?P (c # cs)" using False by simp
    show ?thesis
      apply (subst replace_from.simps)
      using ms False Cons replace_from_trim_tail [OF len, of neg rs] rstrip_Cons [OF nall]
      by (simp add: strip_class_def del: ms.simps rev.simps)
  qed
qed

subsection \<open>The language of an anchor-free pattern\<close>

inductive_set star :: "jsstring set \<Rightarrow> jsstring set" for L :: "jsstring set" where
  star_nil: "[] \<in> star L"
| star_step: "u \<in> L \<Longrightarrow> v \<in> star L \<Longrightarrow> u @ v \<in> star L"

fun anchor_free :: "regex \<Rightarrow> bool" where
  "anchor_free Bol = False"
| "anchor_free Eol = False"
| "anchor_free (Seq a b) = (anchor_free a \<and> anchor_free b)"
| "anchor_free (Alt a b) = (anchor_free a \<and> anchor_free b)"
| "anchor_free (Star a) = anchor_free a"
| "anchor_free r = True"

fun lang :: "regex \<Rightarrow> jsstring set" where
  "lang Empty = {[]}"
| "lang (Cls neg rs) = {[c] | c. cls_mem neg rs c}"
| "lang Bol = {}"
| "lang Eol = {}"
| "lang (Seq a b) = {u @ v | u v. u \<in> lang a \<and> v \<in> lang b}"
| "lang (Alt a b) = lang a \<union> lang b"
| "lang (Star a) = star (lang a)"

lemma star_decompose:
  "w \<in> star L \<Longrightarrow> w \<noteq> [] \<Longrightarrow> \<exists>u v. w = u @ v \<and> u \<in> L \<and> u \<noteq> [] \<and> v \<in> star L"
proof (induction rule: star.induct)
  case star_nil
  then show ?case by simp
next
  case (star_step u v)
  show ?case
  proof (cases "u = []")
    case True
    with star_step show ?thesis by simp
  next
    case False
    with star_step show ?thesis by blast
  qed
qed

lemma ms_lang:
  "anchor_free r \<Longrightarrow> set (ms n r s) = {s'. \<exists>w \<in> lang r. s = w @ s'}"
proof (induction n r s rule: ms.induct)
  case (1 n s)
  show ?case by auto
next
  case (2 n neg rs)
  show ?case by auto
next
  case (3 n neg rs c cs)
  show ?case by auto
next
  case (4 n s)
  then show ?case by simp
next
  case (5 n s)
  then show ?case by simp
next
  case (6 n a b s)
  from 6 have A: "set (ms n a s) = {s'. \<exists>w \<in> lang a. s = w @ s'}" by simp
  from 6 have B: "\<And>x. x \<in> set (ms n a s) \<Longrightarrow> set (ms n b x) = {s'. \<exists>w \<in> lang b. x = w @ s'}"
    by simp
  have "set (ms n (Seq a b) s) = (\<Union>x \<in> set (ms n a s). set (ms n b x))" by simp
  also have "\<dots> = (\<Union>x \<in> {s'. \<exists>w \<in> lang a. s = w @ s'}. {s'. \<exists>w \<in> lang b. x = w @ s'})"
    using A B by auto
  also have "\<dots> = {s'. \<exists>w \<in> lang (Seq a b). s = w @ s'}"
    by (auto, metis append.assoc, metis append.assoc)
  finally show ?case .
next
  case (7 n a b s)
  then show ?case by auto
next
  case (8 n a s)
  from 8 have A: "set (ms n a s) = {s'. \<exists>w \<in> lang a. s = w @ s'}" by simp
  from 8 have B: "\<And>x. x \<in> set (ms n a s) \<Longrightarrow> length x < length s \<Longrightarrow>
      set (ms n (Star a) x) = {s'. \<exists>w \<in> star (lang a). x = w @ s'}"
    by simp
  have unf: "set (ms n (Star a) s) =
      insert s (\<Union>x \<in> {x \<in> set (ms n a s). length x < length s}. set (ms n (Star a) x))"
    by (subst ms.simps(8)) auto
  show ?case
  proof (rule set_eqI, rule iffI)
    fix s'
    assume "s' \<in> set (ms n (Star a) s)"
    then consider "s' = s" | x where "x \<in> set (ms n a s)" "length x < length s" "s' \<in> set (ms n (Star a) x)"
      unfolding unf by auto
    then show "s' \<in> {s'. \<exists>w \<in> lang (Star a). s = w @ s'}"
    proof cases
      case 1
      then show ?thesis by (auto intro: star_nil)
    next
      case 2
      from 2(1) A obtain u where u: "u \<in> lang a" "s = u @ x" by auto
      from 2 B obtain w where w: "w \<in> star (lang a)" "x = w @ s'" by auto
      from u w have "u @ w \<in> star (lang a)" "s = (u @ w) @ s'" by (auto intro: star_step)
      then show ?thesis by auto
    qed
  next
    fix s'
    assume "s' \<in> {s'. \<exists>w \<in> lang (Star a). s = w @ s'}"
    then obtain w where w: "w \<in> star (lang a)" "s = w @ s'" by auto
    show "s' \<in> set (ms n (Star a) s)"
    proof (cases "w = []")
      case True
      with w show ?thesis unfolding unf by simp
    next
      case False
      from star_decompose [OF w(1) False] obtain u v where
        uv: "w = u @ v" "u \<in> lang a" "u \<noteq> []" "v \<in> star (lang a)" by blast
      let ?x = "v @ s'"
      from uv w have x1: "?x \<in> set (ms n a s)" using A by auto
      from uv w have x2: "length ?x < length s" by simp
      from B [OF x1 x2] uv have "s' \<in> set (ms n (Star a) ?x)" by auto
      with x1 x2 show ?thesis unfolding unf by blast
    qed
  qed
qed

text \<open>A pattern \<^verbatim>\<open>^a b$\<close>, as the parser builds it, tests membership in the language.\<close>

lemma ms_Seq_Eol_nonempty:
  "ms n (Seq a (Seq b Eol)) s \<noteq> [] \<longleftrightarrow> [] \<in> set (ms n (Seq a b) s)"
proof -
  have "ms n (Seq b Eol) = (\<lambda>x. filter (\<lambda>y. y = []) (ms n b x))"
    by (rule ext) (simp only: ms.simps(6) ms_Eol_filter)
  then have "ms n (Seq a (Seq b Eol)) s =
      concat (map (\<lambda>x. filter (\<lambda>y. y = []) (ms n b x)) (ms n a s))"
    by (simp only: ms.simps(6) [of n a "Seq b Eol"])
  then have "ms n (Seq a (Seq b Eol)) s \<noteq> [] \<longleftrightarrow>
      (\<exists>x \<in> set (ms n a s). [] \<in> set (ms n b x))"
    by (auto simp: filter_empty_conv simp del: ms.simps)
  moreover have "[] \<in> set (ms n (Seq a b) s) \<longleftrightarrow> (\<exists>x \<in> set (ms n a s). [] \<in> set (ms n b x))"
    by (simp only: ms.simps(6) set_concat set_map) blast
  ultimately show ?thesis by simp
qed

lemma regex_test_anchored:
  assumes "anchor_free a" "anchor_free b"
  shows "regex_test (Seq Bol (Seq a (Seq b Eol))) s \<longleftrightarrow> s \<in> lang (Seq a b)"
proof -
  let ?R = "Seq Bol (Seq a (Seq b Eol))"
  have start: "ms (length s) ?R s \<noteq> [] \<longleftrightarrow> s \<in> lang (Seq a b)"
  proof -
    have "ms (length s) ?R s = ms (length s) (Seq a (Seq b Eol)) s"
      by (subst ms.simps(6)) (simp del: ms.simps(6))
    moreover have "[] \<in> set (ms (length s) (Seq a b) s) \<longleftrightarrow> s \<in> lang (Seq a b)"
      using assms by (subst ms_lang) (auto simp del: lang.simps)
    ultimately show ?thesis by (simp only: ms_Seq_Eol_nonempty)
  qed
  have later: "ms (length s) ?R (drop i s) = []" if "0 < i" "i \<le> length s" for i
  proof -
    from that have "length (drop i s) \<noteq> length s" by simp
    then show ?thesis by (subst ms.simps(6)) (simp del: ms.simps(6))
  qed
  have "regex_test ?R s \<longleftrightarrow> (\<exists>i \<in> set [0..<Suc (length s)]. ms (length s) ?R (drop i s) \<noteq> [])"
    by (simp only: regex_test_def list_ex_iff)
  also have "\<dots> \<longleftrightarrow> ms (length s) ?R s \<noteq> []"
  proof
    assume "\<exists>i \<in> set [0..<Suc (length s)]. ms (length s) ?R (drop i s) \<noteq> []"
    then obtain i where i': "i \<in> set [0..<Suc (length s)]"
      and i: "ms (length s) ?R (drop i s) \<noteq> []"
      by blast
    from i' have "i \<le> length s" by auto
    with i later [of i] have "i = 0" by (cases "0 < i") (simp_all del: ms.simps)
    with i show "ms (length s) ?R s \<noteq> []" by simp
  next
    assume "ms (length s) ?R s \<noteq> []"
    then have "ms (length s) ?R (drop 0 s) \<noteq> []" by (simp del: ms.simps)
    moreover have "0 \<in> set [0..<Suc (length s)]" by simp
    ultimately show "\<exists>i \<in> set [0..<Suc (length s)]. ms (length s) ?R (drop i s) \<noteq> []" by blast
  qed
  finally show ?thesis using start by (simp del: ms.simps lang.simps)
qed

subsection \<open>Strings of words joined by single separators\<close>

fun adjacent :: "(code_unit \<Rightarrow> bool) \<Rightarrow> jsstring \<Rightarrow> bool" where
  "adjacent p (c # d # cs) = ((p c \<and> p d) \<or> adjacent p (d # cs))"
| "adjacent p [c] = False"
| "adjacent p [] = False"

definition well_separated :: "(code_unit \<Rightarrow> bool) \<Rightarrow> (code_unit \<Rightarrow> bool) \<Rightarrow> jsstring \<Rightarrow> bool" where
  "well_separated a p s \<longleftrightarrow>
     s \<noteq> [] \<and> list_all (\<lambda>c. a c \<or> p c) s \<and> a (hd s) \<and> a (last s) \<and> \<not> adjacent p s"

lemma adjacent_iff_index:
  "adjacent p s \<longleftrightarrow> (\<exists>i. Suc i < length s \<and> p (s ! i) \<and> p (s ! Suc i))"
proof (induction p s rule: adjacent.induct)
  case (1 p c d cs)
  show ?case
  proof
    assume "adjacent p (c # d # cs)"
    then consider "p c \<and> p d" | "adjacent p (d # cs)" by auto
    then show "\<exists>i. Suc i < length (c # d # cs) \<and> p ((c # d # cs) ! i) \<and> p ((c # d # cs) ! Suc i)"
    proof cases
      case 1
      then show ?thesis by (intro exI [of _ 0]) simp
    next
      case 2
      with "1.IH" obtain i where "Suc i < length (d # cs)" "p ((d # cs) ! i)" "p ((d # cs) ! Suc i)"
        by auto
      then show ?thesis by (intro exI [of _ "Suc i"]) simp
    qed
  next
    assume "\<exists>i. Suc i < length (c # d # cs) \<and> p ((c # d # cs) ! i) \<and> p ((c # d # cs) ! Suc i)"
    then obtain i where i: "Suc i < length (c # d # cs)" "p ((c # d # cs) ! i)"
      "p ((c # d # cs) ! Suc i)" by blast
    show "adjacent p (c # d # cs)"
    proof (cases i)
      case 0
      with i show ?thesis by simp
    next
      case (Suc j)
      with i have "Suc j < length (d # cs) \<and> p ((d # cs) ! j) \<and> p ((d # cs) ! Suc j)" by simp
      with "1.IH" show ?thesis by auto
    qed
  qed
next
  case (2 p c)
  show ?case by simp
next
  case (3 p)
  show ?case by simp
qed

lemma adjacent_none: "list_all (\<lambda>c. \<not> p c) s \<Longrightarrow> \<not> adjacent p s"
  by (induction p s rule: adjacent.induct) auto

lemma adjacent_Cons: "adjacent p (c # s) \<longleftrightarrow> (s \<noteq> [] \<and> p c \<and> p (hd s)) \<or> adjacent p s"
  by (cases s) auto

lemma adjacent_append_word:
  "list_all (\<lambda>c. \<not> p c) u \<Longrightarrow> adjacent p (u @ y) = adjacent p y"
  by (induction u) (auto simp: adjacent_Cons)

lemma adjacent_suffix: "adjacent p y \<Longrightarrow> adjacent p (u @ y)"
  by (induction u) (auto simp: adjacent_Cons)

lemma star_Cls: "star (lang (Cls neg rs)) = {u. list_all (cls_mem neg rs) u}"
proof (rule set_eqI, rule iffI)
  fix u
  assume "u \<in> star (lang (Cls neg rs))"
  then show "u \<in> {u. list_all (cls_mem neg rs) u}"
    by (induction rule: star.induct) auto
next
  fix u
  assume "u \<in> {u. list_all (cls_mem neg rs) u}"
  then have "list_all (cls_mem neg rs) u" by simp
  then show "u \<in> star (lang (Cls neg rs))"
  proof (induction u)
    case Nil
    show ?case by (rule star_nil)
  next
    case (Cons c u)
    then have "[c] \<in> lang (Cls neg rs)" "u \<in> star (lang (Cls neg rs))" by auto
    then have "[c] @ u \<in> star (lang (Cls neg rs))" by (rule star_step)
    then show ?case by simp
  qed
qed

lemma lang_Plus_Cls:
  "lang (Seq (Cls neg rs) (Star (Cls neg rs))) = {u. u \<noteq> [] \<and> list_all (cls_mem neg rs) u}"
proof (rule set_eqI, rule iffI)
  fix u
  assume "u \<in> lang (Seq (Cls neg rs) (Star (Cls neg rs)))"
  then obtain c v where "u = [c] @ v" "cls_mem neg rs c" "v \<in> star (lang (Cls neg rs))"
    by auto
  then show "u \<in> {u. u \<noteq> [] \<and> list_all (cls_mem neg rs) u}"
    by (simp add: star_Cls del: lang.simps)
next
  fix u
  assume "u \<in> {u. u \<noteq> [] \<and> list_all (cls_mem neg rs) u}"
  then obtain c v where u: "u = c # v" "cls_mem neg rs c" "list_all (cls_mem neg rs) v"
    by (cases u) auto
  then have "[c] \<in> lang (Cls neg rs)" by simp
  moreover from u have "v \<in> lang (Star (Cls neg rs))"
    by (simp add: star_Cls del: lang.simps(2))
  ultimately have "[c] \<in> lang (Cls neg rs)" "v \<in> lang (Star (Cls neg rs))" by blast+
  then have "[c] @ v \<in> lang (Seq (Cls neg rs) (Star (Cls neg rs)))"
    by (simp only: lang.simps(5)) blast
  with u show "u \<in> lang (Seq (Cls neg rs) (Star (Cls neg rs)))" by simp
qed

lemma lang_Seq_Cls: "lang (Seq (Cls neg rs) r) = {c # u | c u. cls_mem neg rs c \<and> u \<in> lang r}"
proof (rule set_eqI, rule iffI)
  fix w
  assume "w \<in> lang (Seq (Cls neg rs) r)"
  then show "w \<in> {c # u | c u. cls_mem neg rs c \<and> u \<in> lang r}" by auto
next
  fix w
  assume "w \<in> {c # u | c u. cls_mem neg rs c \<and> u \<in> lang r}"
  then obtain c u where "w = [c] @ u" "[c] \<in> lang (Cls neg rs)" "u \<in> lang r" by auto
  then show "w \<in> lang (Seq (Cls neg rs) r)" by (simp only: lang.simps(5)) blast
qed

lemma word_well_separated:
  assumes "u \<noteq> []" "list_all a u" "\<And>c. a c \<Longrightarrow> \<not> p c"
  shows "well_separated a p u"
proof -
  from assms have "list_all (\<lambda>c. \<not> p c) u" by (auto simp: list_all_iff)
  then have "\<not> adjacent p u" by (rule adjacent_none)
  moreover from assms have "a (hd u)" "a (last u)" by (auto simp: list_all_iff)
  moreover from assms have "list_all (\<lambda>c. a c \<or> p c) u" by (auto simp: list_all_iff)
  ultimately show ?thesis using assms(1) by (simp add: well_separated_def)
qed

lemma well_separated_join:
  assumes u: "u \<noteq> []" "list_all a u" and c: "p c" and x: "well_separated a p x"
    and disj: "\<And>c. a c \<Longrightarrow> \<not> p c"
  shows "well_separated a p (u @ c # x)"
proof -
  from u disj have np: "list_all (\<lambda>c. \<not> p c) u" by (auto simp: list_all_iff)
  from x have x': "x \<noteq> []" "a (hd x)" "\<not> adjacent p x" "a (last x)" "list_all (\<lambda>c. a c \<or> p c) x"
    by (simp_all add: well_separated_def)
  from x' disj have "\<not> adjacent p (c # x)" by (auto simp: adjacent_Cons)
  with np have "\<not> adjacent p (u @ c # x)" by (simp add: adjacent_append_word)
  moreover from u have "a (hd (u @ c # x))" by (cases u) auto
  moreover from x' have "a (last (u @ c # x))" by simp
  moreover from u c x' have "list_all (\<lambda>c. a c \<or> p c) (u @ c # x)" by (auto simp: list_all_iff)
  ultimately show ?thesis by (simp add: well_separated_def)
qed

lemma well_separated_split:
  assumes ws: "well_separated a p s" and disj: "\<And>c. a c \<Longrightarrow> \<not> p c"
  shows "dropWhile a s = [] \<or>
     (\<exists>c x. dropWhile a s = c # x \<and> p c \<and> well_separated a p x)"
proof (cases "dropWhile a s")
  case Nil
  then show ?thesis by simp
next
  case (Cons c x)
  from ws have s: "s \<noteq> []" "list_all (\<lambda>c. a c \<or> p c) s" "a (hd s)" "a (last s)" "\<not> adjacent p s"
    by (simp_all add: well_separated_def)
  have split: "s = takeWhile a s @ c # x" using Cons by (metis takeWhile_dropWhile_id)
  have nc: "\<not> a c" using Cons by (metis hd_dropWhile list.sel(1) list.distinct(1))
  have "c \<in> set s" using split by (metis in_set_conv_decomp)
  with s nc have pc: "p c" by (auto simp: list_all_iff)
  have lastx: "last s = last (c # x)" using split by (metis last_appendR list.distinct(1))
  have xne: "x \<noteq> []" using lastx nc s(4) by auto
  have nadj: "\<not> adjacent p (c # x)" using s(5) split adjacent_suffix by metis
  from nadj xne pc have "\<not> p (hd x)" "\<not> adjacent p x" by (auto simp: adjacent_Cons)
  moreover have "set x \<subseteq> set s" using split by (metis set_subset_Cons set_append le_supI2 subset_trans order_refl Un_upper2)
  moreover have "hd x \<in> set s" using xne \<open>set x \<subseteq> set s\<close> by (meson hd_in_set subsetD)
  ultimately have "a (hd x)" using s(2) by (auto simp: list_all_iff)
  with \<open>\<not> adjacent p x\<close> \<open>set x \<subseteq> set s\<close> have "well_separated a p x"
    using xne s lastx by (auto simp: well_separated_def list_all_iff)
  with Cons pc show ?thesis by simp
qed

lemma lang_separated:
  assumes disj: "\<And>c. cls_mem na ra c \<Longrightarrow> \<not> cls_mem ns rs c"
  shows "s \<in> lang (Seq (Seq (Cls na ra) (Star (Cls na ra)))
                      (Star (Seq (Cls ns rs) (Seq (Cls na ra) (Star (Cls na ra))))))
         \<longleftrightarrow> well_separated (cls_mem na ra) (cls_mem ns rs) s"
proof -
  let ?a = "cls_mem na ra" and ?p = "cls_mem ns rs"
  let ?W = "lang (Seq (Cls na ra) (Star (Cls na ra)))"
  let ?G = "lang (Seq (Cls ns rs) (Seq (Cls na ra) (Star (Cls na ra))))"
  have W: "?W = {u. u \<noteq> [] \<and> list_all ?a u}" by (rule lang_Plus_Cls)
  have G: "?G = {c # u | c u. ?p c \<and> u \<in> ?W}"
    by (rule lang_Seq_Cls)
  have fwd: "\<forall>u \<in> ?W. well_separated ?a ?p (u @ w)" if "w \<in> star ?G" for w
    using that
  proof (induction rule: star.induct)
    case star_nil
    show ?case using disj by (auto simp: W intro: word_well_separated simp del: lang.simps)
  next
    case (star_step g w)
    from star_step(1) obtain c v where g: "g = c # v" "?p c" "v \<in> ?W" unfolding G by blast
    show ?case
    proof
      fix u assume "u \<in> ?W"
      then have u: "u \<noteq> []" "list_all ?a u" by (simp_all add: W del: lang.simps)
      from star_step.IH g have "well_separated ?a ?p (v @ w)" by blast
      from well_separated_join [OF u g(2) this] disj
      show "well_separated ?a ?p (u @ g @ w)" using g by simp
    qed
  qed
  have bwd: "\<exists>u w. s = u @ w \<and> u \<in> ?W \<and> w \<in> star ?G" if "well_separated ?a ?p s" for s
    using that
  proof (induction s rule: length_induct)
    case (1 s)
    from "1.prems" have s: "s \<noteq> []" "?a (hd s)" by (simp_all add: well_separated_def)
    then have tw: "takeWhile ?a s \<in> ?W"
      by (cases s) (auto simp: W list_all_iff dest: set_takeWhileD simp del: lang.simps)
    from well_separated_split [OF "1.prems"] disj
    consider "dropWhile ?a s = []"
      | c x where "dropWhile ?a s = c # x" "?p c" "well_separated ?a ?p x"
      by blast
    then show ?case
    proof cases
      case 1
      then have "s = takeWhile ?a s @ []" by (metis takeWhile_dropWhile_id)
      with tw show ?thesis using star_nil by blast
    next
      case 2
      have split: "s = takeWhile ?a s @ c # x" using 2(1) by (metis takeWhile_dropWhile_id)
      then have "length x < length s"
        by (metis length_append length_Cons less_add_Suc2 less_SucI add_Suc_right)
      with "1.IH" 2(3) obtain u w where uw: "x = u @ w" "u \<in> ?W" "w \<in> star ?G" by blast
      from uw 2 have "c # u \<in> ?G" unfolding G by blast
      with uw have "(c # u) @ w \<in> star ?G" by (intro star_step)
      with split uw tw show ?thesis by (metis append_Cons)
    qed
  qed
  have "s \<in> lang (Seq (Seq (Cls na ra) (Star (Cls na ra)))
                      (Star (Seq (Cls ns rs) (Seq (Cls na ra) (Star (Cls na ra))))))
        \<longleftrightarrow> (\<exists>u w. s = u @ w \<and> u \<in> ?W \<and> w \<in> star ?G)"
    by (simp only: lang.simps(5) [of "Seq (Cls na ra) (Star (Cls na ra))"] lang.simps(7)) blast
  with fwd bwd show ?thesis by blast
qed

lemma regex_test_separated:
  assumes disj: "\<And>c. cls_mem na ra c \<Longrightarrow> \<not> cls_mem ns rs c"
  shows "regex_test
           (Seq Bol
              (Seq (Seq (Cls na ra) (Star (Cls na ra)))
                 (Seq (Star (Seq (Cls ns rs) (Seq (Cls na ra) (Star (Cls na ra))))) Eol)))
           s
         \<longleftrightarrow> well_separated (cls_mem na ra) (cls_mem ns rs) s"
proof -
  have "anchor_free (Seq (Cls na ra) (Star (Cls na ra)))"
    "anchor_free (Star (Seq (Cls ns rs) (Seq (Cls na ra) (Star (Cls na ra)))))"
    by simp_all
  from regex_test_anchored [OF this] lang_separated [OF disj]
  show ?thesis by (simp del: lang.simps)
qed

section \<open>Validation of slugs\<close>

text \<open>The separator class of \<^verbatim>\<open>isValidSlug\<close>: the hyphen, and the dot when dots are allowed.\<close>

definition slug_separator :: "bool \<Rightarrow> code_unit \<Rightarrow> bool" where
  "slug_separator dots c = (c = 0x2D \<or> (dots \<and> c = 0x2E))"

definition lower_alnum :: "code_unit \<Rightarrow> bool" where
  "lower_alnum c = (is_lower c \<or> is_digit c)"

lemma cls_lower_alnum: "cls_mem False [(0x61, 0x7A), (0x30, 0x39)] c = lower_alnum c"
  by (auto simp: cls_mem_def in_ranges_def lower_alnum_def is_lower_def is_digit_def)

lemma cls_hyphen: "cls_mem False [(0x2D, 0x2D)] c = slug_separator False c"
  by (auto simp: cls_mem_def in_ranges_def slug_separator_def)

lemma cls_hyphen_dot: "cls_mem False [(0x2D, 0x2D), (0x2E, 0x2E)] c = slug_separator True c"
  by (auto simp: cls_mem_def in_ranges_def slug_separator_def)

lemma cls_lower_alnum_fun: "cls_mem False [(0x61, 0x7A), (0x30, 0x39)] = lower_alnum"
  by (rule ext) (rule cls_lower_alnum)

lemma cls_hyphen_fun: "cls_mem False [(0x2D, 0x2D)] = slug_separator False"
  by (rule ext) (rule cls_hyphen)

lemma cls_hyphen_dot_fun: "cls_mem False [(0x2D, 0x2D), (0x2E, 0x2E)] = slug_separator True"
  by (rule ext) (rule cls_hyphen_dot)

lemma lower_alnum_not_separator: "lower_alnum c \<Longrightarrow> \<not> slug_separator dots c"
  unfolding lower_alnum_def slug_separator_def is_lower_def is_digit_def
  by (auto simp: word_le_nat_alt)

lemma isValidSlug_separated:
  "isValidSlug (Str s) options =
     well_separated lower_alnum
       (slug_separator (case allowDots options of None \<Rightarrow> False | Some b \<Rightarrow> b)) s"
proof (cases "s = []")
  case True
  then show ?thesis by (simp add: isValidSlug_def well_separated_def)
next
  case False
  have a: "regex_test slugPattern s = well_separated lower_alnum (slug_separator False) s"
    unfolding slugPattern_def
    by (subst regex_test_separated)
       (auto simp: cls_lower_alnum_fun cls_hyphen_fun cls_hyphen_dot_fun
          dest: lower_alnum_not_separator)
  have b: "regex_test slugWithDotsPattern s = well_separated lower_alnum (slug_separator True) s"
    unfolding slugWithDotsPattern_def
    by (subst regex_test_separated)
       (auto simp: cls_lower_alnum_fun cls_hyphen_fun cls_hyphen_dot_fun
          dest: lower_alnum_not_separator)
  from False a b show ?thesis
    by (auto simp: isValidSlug_def split: option.splits)
qed

text \<open>
  C4: \<^verbatim>\<open>isValidSlug\<close> accepts exactly the non-empty strings of lowercase ASCII letters, digits
  and separator-class characters that begin and end with a letter or digit and have no two
  separator-class characters next to each other. The separator class is the hyphen alone
  unless \<^verbatim>\<open>allowDots\<close> is true, when it is the hyphen and the dot; so without \<^verbatim>\<open>allowDots\<close> a
  dot makes the candidate invalid, and with it \<^verbatim>\<open>a.-b\<close>, \<^verbatim>\<open>a--b\<close> and \<^verbatim>\<open>a..b\<close> are invalid while
  \<^verbatim>\<open>a-b\<close> and \<^verbatim>\<open>a.b\<close> are valid.
\<close>

theorem isValidSlug_contract:
  "(isValidSlug (Str candidate) \<lparr>separator = sep, allowDots = dots\<rparr> \<longleftrightarrow>
      candidate \<noteq> [] \<and>
      (\<forall>c \<in> set candidate. is_lower c \<or> is_digit c \<or> slug_separator (dots = Some True) c) \<and>
      (is_lower (hd candidate) \<or> is_digit (hd candidate)) \<and>
      (is_lower (last candidate) \<or> is_digit (last candidate)) \<and>
      \<not> (\<exists>i. Suc i < length candidate \<and>
             slug_separator (dots = Some True) (candidate ! i) \<and>
             slug_separator (dots = Some True) (candidate ! Suc i))) \<and>
   (dots \<noteq> Some True \<and> 0x2E \<in> set candidate \<longrightarrow>
      \<not> isValidSlug (Str candidate) \<lparr>separator = sep, allowDots = dots\<rparr>) \<and>
   \<not> isValidSlug (Str (js ''a.-b'')) \<lparr>separator = sep, allowDots = Some True\<rparr> \<and>
   \<not> isValidSlug (Str (js ''a--b'')) \<lparr>separator = sep, allowDots = Some True\<rparr> \<and>
   \<not> isValidSlug (Str (js ''a..b'')) \<lparr>separator = sep, allowDots = Some True\<rparr> \<and>
   isValidSlug (Str (js ''a-b'')) \<lparr>separator = sep, allowDots = Some True\<rparr> \<and>
   isValidSlug (Str (js ''a.b'')) \<lparr>separator = sep, allowDots = Some True\<rparr>"
proof -
  have d: "(case dots of None \<Rightarrow> False | Some b \<Rightarrow> b) = (dots = Some True)"
    by (cases dots) auto
  have main: "isValidSlug (Str candidate) \<lparr>separator = sep, allowDots = dots\<rparr> \<longleftrightarrow>
      candidate \<noteq> [] \<and>
      (\<forall>c \<in> set candidate. is_lower c \<or> is_digit c \<or> slug_separator (dots = Some True) c) \<and>
      (is_lower (hd candidate) \<or> is_digit (hd candidate)) \<and>
      (is_lower (last candidate) \<or> is_digit (last candidate)) \<and>
      \<not> (\<exists>i. Suc i < length candidate \<and>
             slug_separator (dots = Some True) (candidate ! i) \<and>
             slug_separator (dots = Some True) (candidate ! Suc i))"
    by (simp add: isValidSlug_separated d well_separated_def adjacent_iff_index list_all_iff
        lower_alnum_def disj_ac)
  have nodot: "dots \<noteq> Some True \<and> 0x2E \<in> set candidate \<longrightarrow>
      \<not> isValidSlug (Str candidate) \<lparr>separator = sep, allowDots = dots\<rparr>"
  proof
    assume h: "dots \<noteq> Some True \<and> 0x2E \<in> set candidate"
    have "\<not> (is_lower 0x2E \<or> is_digit 0x2E \<or> slug_separator False 0x2E)"
      by (simp add: is_lower_def is_digit_def slug_separator_def)
    with h show "\<not> isValidSlug (Str candidate) \<lparr>separator = sep, allowDots = dots\<rparr>"
      unfolding main by auto
  qed
  have ex: "\<not> isValidSlug (Str (js ''a.-b'')) \<lparr>separator = sep, allowDots = Some True\<rparr>"
    "\<not> isValidSlug (Str (js ''a--b'')) \<lparr>separator = sep, allowDots = Some True\<rparr>"
    "\<not> isValidSlug (Str (js ''a..b'')) \<lparr>separator = sep, allowDots = Some True\<rparr>"
    "isValidSlug (Str (js ''a-b'')) \<lparr>separator = sep, allowDots = Some True\<rparr>"
    "isValidSlug (Str (js ''a.b'')) \<lparr>separator = sep, allowDots = Some True\<rparr>"
    by (simp_all add: isValidSlug_separated well_separated_def js_def lower_alnum_def
        is_lower_def is_digit_def slug_separator_def)
  from main nodot ex show ?thesis by blast
qed

theorem isValidSlug_contract_witness:
  "isValidSlug (Str (js ''a'')) \<lparr>separator = None, allowDots = None\<rparr> \<and>
   \<not> isValidSlug (Str (js ''a.b'')) \<lparr>separator = None, allowDots = None\<rparr>"
  using isValidSlug_contract [of "js ''a''" None None]
    isValidSlug_contract [of "js ''a.b''" None None]
  by (simp add: js_def is_lower_def is_digit_def slug_separator_def)

section \<open>Unique slugs\<close>

lemma digits_value_snoc: "digits_value (ds @ [d]) = 10 * digits_value ds + (unat d - 48)"
  by (simp add: digits_value_def)

lemma unat_digit: "n < 10 \<Longrightarrow> unat (of_nat (48 + n) :: code_unit) - 48 = n"
proof -
  assume "n < 10"
  then have "unat (of_nat (48 + n) :: code_unit) = 48 + n"
    by (intro of_nat_inverse [OF refl]) simp
  then show ?thesis by simp
qed

lemma digits_value_decimal: "digits_value (decimal n) = n"
proof (induction n rule: decimal.induct)
  case (1 n)
  show ?case
  proof (cases "n < 10")
    case True
    then show ?thesis
      by (subst decimal.simps) (simp add: digits_value_def unat_digit del: of_nat_add)
  next
    case False
    have "n mod 10 < 10" by simp
    with False 1 show ?thesis
      by (subst decimal.simps) (simp add: digits_value_snoc unat_digit del: of_nat_add)
  qed
qed

lemma decimal_inj: "decimal a = decimal b \<Longrightarrow> a = b"
  by (metis digits_value_decimal)

lemma candidate_inj: "baseSlug @ sep @ decimal a = baseSlug @ sep @ decimal b \<Longrightarrow> a = b"
  by (simp add: decimal_inj)

lemma free_suffix_exists: "\<exists>k \<ge> c. baseSlug @ sep @ decimal k \<notin> set existingSlugs"
proof (rule ccontr)
  assume "\<not> (\<exists>k \<ge> c. baseSlug @ sep @ decimal k \<notin> set existingSlugs)"
  then have "(\<lambda>k. baseSlug @ sep @ decimal k) ` {c..} \<subseteq> set existingSlugs" by auto
  then have "finite ((\<lambda>k. baseSlug @ sep @ decimal k) ` {c..})"
    by (rule finite_subset) simp
  moreover have "inj_on (\<lambda>k. baseSlug @ sep @ decimal k) {c..}"
    by (rule inj_onI) (rule candidate_inj)
  ultimately have "finite {c..}" by (rule finite_imageD)
  then show False by (simp add: infinite_Ici)
qed

lemma uniqueLoop_result:
  assumes "c \<le> N" "baseSlug @ sep @ decimal N \<notin> set existingSlugs"
    "\<And>k. c \<le> k \<Longrightarrow> k < N \<Longrightarrow> baseSlug @ sep @ decimal k \<in> set existingSlugs"
  shows "uniqueLoop baseSlug sep existingSlugs c = Some (baseSlug @ sep @ decimal N)"
  using assms
proof (induction "N - c" arbitrary: c)
  case 0
  then have "c = N" by simp
  with 0 show ?case by (subst uniqueLoop.simps) simp
next
  case (Suc d)
  then have lt: "c < N" by simp
  with Suc.prems have taken: "baseSlug @ sep @ decimal c \<in> set existingSlugs" by simp
  have "uniqueLoop baseSlug sep existingSlugs (c + 1) = Some (baseSlug @ sep @ decimal N)"
  proof (rule Suc.hyps(1))
    show "d = N - (c + 1)" using Suc.hyps(2) by simp
    show "c + 1 \<le> N" using lt by simp
    show "baseSlug @ sep @ decimal N \<notin> set existingSlugs" by (rule Suc.prems(2))
    show "baseSlug @ sep @ decimal k \<in> set existingSlugs" if "c + 1 \<le> k" "k < N" for k
      using that Suc.prems(3) [of k] by simp
  qed
  with taken show ?case by (subst uniqueLoop.simps) simp
qed

text \<open>
  C3: \<^verbatim>\<open>generateUniqueSlug\<close> returns, for every base slug, list of existing slugs and
  separator: the base slug itself when it is not in the list, and otherwise the base slug,
  the separator and the decimal numeral of the least \<open>N \<ge> 1\<close> for which that string is not
  in the list. The result is never in the list, and the loop always ends.
\<close>

theorem generateUniqueSlug_contract:
  "\<exists>r. generateUniqueSlug baseSlug existingSlugs options = Some r \<and>
       r \<notin> set existingSlugs \<and>
       (baseSlug \<notin> set existingSlugs \<longrightarrow> r = baseSlug) \<and>
       (baseSlug \<in> set existingSlugs \<longrightarrow>
          (\<exists>N \<ge> 1.
             r = baseSlug @ (case separator options of None \<Rightarrow> js ''-'' | Some x \<Rightarrow> x) @ decimal N \<and>
             (\<forall>k. 1 \<le> k \<and> k < N \<longrightarrow>
                baseSlug @ (case separator options of None \<Rightarrow> js ''-'' | Some x \<Rightarrow> x) @ decimal k
                  \<in> set existingSlugs)))"
proof (cases "baseSlug \<in> set existingSlugs")
  case False
  then show ?thesis by (simp add: generateUniqueSlug_def)
next
  case True
  define sep where "sep = (case separator options of None \<Rightarrow> js ''-'' | Some x \<Rightarrow> x)"
  define free where "free = (\<lambda>k. 1 \<le> k \<and> baseSlug @ sep @ decimal k \<notin> set existingSlugs)"
  define N where "N = (LEAST k. free k)"
  from free_suffix_exists [of 1 baseSlug sep existingSlugs] have "\<exists>k. free k"
    by (auto simp: free_def)
  then have N: "free N" unfolding N_def by (metis LeastI)
  have least: "\<not> free k" if "k < N" for k
    using that unfolding N_def by (rule not_less_Least)
  have "uniqueLoop baseSlug sep existingSlugs 1 = Some (baseSlug @ sep @ decimal N)"
  proof (rule uniqueLoop_result)
    show "1 \<le> N" using N by (simp add: free_def)
    show "baseSlug @ sep @ decimal N \<notin> set existingSlugs" using N by (simp add: free_def)
    show "baseSlug @ sep @ decimal k \<in> set existingSlugs" if "1 \<le> k" "k < N" for k
      using that least [of k] by (simp add: free_def)
  qed
  with True N least show ?thesis
    unfolding generateUniqueSlug_def Let_def sep_def [symmetric] free_def
    by (intro exI [of _ "baseSlug @ sep @ decimal N"]) auto
qed

theorem generateUniqueSlug_contract_witness:
  "generateUniqueSlug (js ''post'') [js ''post'', js ''post-1'', js ''post-2'', js ''post-3'']
      \<lparr>separator = None, allowDots = None\<rparr> = Some (js ''post-4'') \<and>
   (\<exists>r. generateUniqueSlug (js ''post'') [js ''post'', js ''post-1'', js ''post-2'', js ''post-3'']
      \<lparr>separator = None, allowDots = None\<rparr> = Some r \<and>
      r \<notin> set [js ''post'', js ''post-1'', js ''post-2'', js ''post-3''])"
proof -
  have "generateUniqueSlug (js ''post'') [js ''post'', js ''post-1'', js ''post-2'', js ''post-3'']
      \<lparr>separator = None, allowDots = None\<rparr> = Some (js ''post-4'')"
    by code_simp
  moreover from generateUniqueSlug_contract
    [of "js ''post''" "[js ''post'', js ''post-1'', js ''post-2'', js ''post-3'']"
      "\<lparr>separator = None, allowDots = None\<rparr>"]
  have "\<exists>r. generateUniqueSlug (js ''post'') [js ''post'', js ''post-1'', js ''post-2'', js ''post-3'']
      \<lparr>separator = None, allowDots = None\<rparr> = Some r \<and>
      r \<notin> set [js ''post'', js ''post-1'', js ''post-2'', js ''post-3'']"
    by blast
  ultimately show ?thesis by blast
qed

section \<open>Patterns built from escaped text\<close>

text \<open>What \<^verbatim>\<open>s.replace(/[...]/g, '\\$&')\<close> computes: a backslash before every special code unit.\<close>

definition escaped :: "(code_unit \<Rightarrow> bool) \<Rightarrow> jsstring \<Rightarrow> jsstring" where
  "escaped P s = concat (map (\<lambda>c. if P c then [0x5C, c] else [c]) s)"

lemma escaped_simps [simp]:
  "escaped P [] = []"
  "escaped P (c # s) = (if P c then 0x5C # c # escaped P s else c # escaped P s)"
  by (simp_all add: escaped_def)

lemma escaped_append: "escaped P (s @ t) = escaped P s @ escaped P t"
  by (simp add: escaped_def)

lemma escaped_concat: "concat (map (escaped P) l) = escaped P (concat l)"
  by (induction l) (simp_all add: escaped_append)

lemma replace_escape:
  "replace_with_string (Cls neg rs) [0x5C, 0x24, 0x26] s = escaped (cls_mem neg rs) s"
  unfolding replace_with_string_def escaped_def
  by (rule replace_from_Cls) simp

definition name_special :: "code_unit \<Rightarrow> bool" where
  "name_special c = (c \<in> {0x2E, 0x2A, 0x2B, 0x3F, 0x5E, 0x24, 0x7B, 0x7D, 0x28, 0x29, 0x7C, 0x5B,
      0x5D, 0x5C, 0x2D})"

definition slug_special :: "code_unit \<Rightarrow> bool" where
  "slug_special c = (c \<in> {0x2E, 0x2A, 0x2B, 0x3F, 0x5E, 0x24, 0x7B, 0x7D, 0x28, 0x29, 0x7C, 0x5B,
      0x5D, 0x5C})"

lemma cls_name_special:
  "cls_mem False [(0x2E, 0x2E), (0x2A, 0x2A), (0x2B, 0x2B), (0x3F, 0x3F), (0x5E, 0x5E),
     (0x24, 0x24), (0x7B, 0x7B), (0x7D, 0x7D), (0x28, 0x28), (0x29, 0x29), (0x7C, 0x7C),
     (0x5B, 0x5B), (0x5D, 0x5D), (0x5C, 0x5C), (0x2D, 0x2D)] = name_special"
  by (rule ext) (auto simp: cls_mem_def in_ranges_def name_special_def)

lemma cls_slug_special:
  "cls_mem False [(0x2E, 0x2E), (0x2A, 0x2A), (0x2B, 0x2B), (0x3F, 0x3F), (0x5E, 0x5E),
     (0x24, 0x24), (0x7B, 0x7B), (0x7D, 0x7D), (0x28, 0x28), (0x29, 0x29), (0x7C, 0x7C),
     (0x5B, 0x5B), (0x5D, 0x5D), (0x5C, 0x5C)] = slug_special"
  by (rule ext) (auto simp: cls_mem_def in_ranges_def slug_special_def)

lemma escapeChars_escaped: "escapeChars allowed = escaped name_special (concat allowed)"
  by (simp add: escapeChars_def nameSpecialsPattern_def replace_escape cls_name_special
      escaped_concat)

lemma escapeSeparator_escaped: "escapeSeparator sep = escaped slug_special sep"
  by (simp add: escapeSeparator_def specialsPattern_def replace_escape cls_slug_special)

lemma name_special_not_alnum: "name_special c \<Longrightarrow> \<not> is_ascii_alnum c"
  by (auto simp: name_special_def is_ascii_alnum_def is_digit_def is_upper_def is_lower_def)

lemma slug_special_not_alnum: "slug_special c \<Longrightarrow> \<not> is_ascii_alnum c"
  by (auto simp: slug_special_def is_ascii_alnum_def is_digit_def is_upper_def is_lower_def)

subsection \<open>A class whose content is escaped text\<close>

lemma class_atom_plain: "c \<noteq> 0x5C \<Longrightarrow> class_atom (c # cs) = Inr (c, cs)"
  by (cases cs) simp_all

lemma class_atom_escape:
  "\<not> is_ascii_alnum x \<Longrightarrow> class_atom (0x5C # x # cs) = Inr (x, cs)"
  by simp

lemma range_follows_hd: "range_follows s \<Longrightarrow> hd s = 0x2D"
  by (cases s rule: range_follows.cases) auto

lemma hd_escaped_close:
  "P 0x2D \<Longrightarrow> hd (escaped P xs @ 0x5D # rest) \<noteq> 0x2D"
  by (cases xs) auto

lemma class_ranges_escaped:
  assumes P: "P 0x5C" "P 0x5D" "P 0x2D" and na: "\<And>c. P c \<Longrightarrow> \<not> is_ascii_alnum c"
  shows "class_ranges (escaped P xs @ 0x5D # rest) = Inr (map (\<lambda>c. (c, c)) xs, rest)"
proof (induction xs)
  case Nil
  show ?case by (subst class_ranges.simps) simp
next
  case (Cons x xs)
  let ?s1 = "escaped P xs @ 0x5D # rest"
  have nr: "\<not> range_follows ?s1"
    using hd_escaped_close [where P = P and xs = xs and rest = rest, OF P(3)] range_follows_hd
    by blast
  obtain y ys where s1: "?s1 = y # ys" by (cases ?s1) auto
  show ?case
  proof (cases "P x")
    case True
    have at: "class_atom (0x5C # x # ?s1) = Inr (x, ?s1)"
      using na [OF True] by simp
    show ?thesis
      using True at nr Cons
      by (subst class_ranges.simps) simp
  next
    case False
    with P have x: "x \<noteq> 0x5C" "x \<noteq> 0x5D" by auto
    have at: "class_atom (x # ?s1) = Inr (x, ?s1)"
      using x(1) by (rule class_atom_plain)
    show ?thesis
      using False x at nr Cons
      by (subst class_ranges.simps) simp
  qed
qed

lemma negated_escaped_close:
  "P 0x5E \<Longrightarrow> \<not> negated (escaped P xs @ 0x5D # rest)"
  by (cases xs) auto

lemma cls_mem_singletons: "cls_mem False (map (\<lambda>c. (c, c)) xs) = (\<lambda>c. c \<in> set xs)"
  by (rule ext) (auto simp: cls_mem_def in_ranges_def list_ex_iff)

lemma class_ranges_alnum_prefix:
  "class_ranges (0x61 # 0x2D # 0x7A # 0x41 # 0x2D # 0x5A # 0x30 # 0x2D # 0x39 # s) =
     (case class_ranges s of
        Inl e \<Rightarrow> Inl e
      | Inr (rs, rest) \<Rightarrow> Inr ((0x61, 0x7A) # (0x41, 0x5A) # (0x30, 0x39) # rs, rest))"
  apply (subst class_ranges.simps, simp add: class_atom_plain del: class_atom.simps)
  apply (subst class_ranges.simps, simp add: class_atom_plain del: class_atom.simps)
  apply (subst class_ranges.simps, simp add: class_atom_plain del: class_atom.simps)
  apply (auto split: sum.splits)
  done

lemma class_ranges_lower_alnum_prefix:
  "class_ranges (0x61 # 0x2D # 0x7A # 0x30 # 0x2D # 0x39 # s) =
     (case class_ranges s of
        Inl e \<Rightarrow> Inl e
      | Inr (rs, rest) \<Rightarrow> Inr ((0x61, 0x7A) # (0x30, 0x39) # rs, rest))"
  apply (subst class_ranges.simps, simp add: class_atom_plain del: class_atom.simps)
  apply (subst class_ranges.simps, simp add: class_atom_plain del: class_atom.simps)
  apply (auto split: sum.splits)
  done

lemma class_ranges_close: "class_ranges (0x5D # rest) = Inr ([], rest)"
  by (subst class_ranges.simps) simp

lemma class_ranges_name:
  "class_ranges (escaped name_special xs @ 0x5D # rest) = Inr (map (\<lambda>c. (c, c)) xs, rest)"
  by (rule class_ranges_escaped) (simp_all add: name_special_def [of "0x5C"]
      name_special_def [of "0x5D"] name_special_def [of "0x2D"] name_special_not_alnum)

lemma take1_name: "negated (escaped name_special xs @ 0x5D # rest) = False"
  using negated_escaped_close [of name_special xs rest] by (simp add: name_special_def)

lemmas lex_simps =
  RegExp_def js_def lex.simps cons_token_def simple_token_def chr_def quantify_def
  close_frame_def is_ascii_alnum_def is_digit_def is_upper_def is_lower_def braces_def
  digits_value_def class_ranges_close class_ranges_alnum_prefix class_ranges_lower_alnum_prefix

definition ascii_alnum_ranges :: "char_range list" where
  "ascii_alnum_ranges = [(0x61, 0x7A), (0x41, 0x5A), (0x30, 0x39)]"

definition separated_pattern :: "char_range list \<Rightarrow> char_range list \<Rightarrow> regex" where
  "separated_pattern ra rs =
     Seq Bol
       (Seq (Seq (Cls False ra) (Star (Cls False ra)))
          (Seq (Star (Seq (Cls False rs) (Seq (Cls False ra) (Star (Cls False ra))))) Eol))"

lemma name_test_pattern:
  "RegExp (js ''^[a-zA-Z0-9]+(?:['' @ escapeChars allowed @ js ''][a-zA-Z0-9]+)*$'') =
     Inr (separated_pattern ascii_alnum_ranges (map (\<lambda>c. (c, c)) (concat allowed)))"
  by (simp add: lex_simps escapeChars_escaped class_ranges_name take1_name
      separated_pattern_def ascii_alnum_ranges_def)

lemma name_remove_pattern:
  "RegExp (js ''[^a-zA-Z0-9'' @ escapeChars allowed @ js '']'') =
     Inr (Cls True (ascii_alnum_ranges @ map (\<lambda>c. (c, c)) (concat allowed)))"
  by (simp add: lex_simps escapeChars_escaped class_ranges_name take1_name
      ascii_alnum_ranges_def)

lemma braces_two_or_more: "braces (0x32 # 0x2C # 0x7D # rest) = Some (2, None, rest)"
  by (simp add: braces_def is_digit_def digits_value_def)

lemma quantify_two_or_more: "quantify 2 None r = Inr (Seq r (Seq r (Star r)))"
  by (simp add: quantify_def numeral_2_eq_2)

lemma name_collapse_pattern:
  "RegExp (js ''['' @ escapeChars allowed @ js '']{2,}'') =
     Inr (Seq (Cls False (map (\<lambda>c. (c, c)) (concat allowed)))
            (Seq (Cls False (map (\<lambda>c. (c, c)) (concat allowed)))
               (Star (Cls False (map (\<lambda>c. (c, c)) (concat allowed))))))"
  by (simp add: RegExp_def js_def lex.simps cons_token_def escapeChars_escaped class_ranges_name
      take1_name braces_two_or_more quantify_two_or_more close_frame_def)

lemma name_trim_pattern:
  "RegExp (js ''^['' @ escapeChars allowed @ js '']+|['' @ escapeChars allowed @ js '']+$'') =
     Inr (trim_pattern False (map (\<lambda>c. (c, c)) (concat allowed)))"
  by (simp add: lex_simps escapeChars_escaped class_ranges_name take1_name trim_pattern_def)

section \<open>Replacing by a fixed string or by a function\<close>

lemma replace_remove_Cls:
  "replace_with_string (Cls neg rs) [] s = filter (\<lambda>c. \<not> cls_mem neg rs c) s"
proof -
  have "replace_with_string (Cls neg rs) [] s =
      concat (map (\<lambda>c. if cls_mem neg rs c then [] else [c]) s)"
    unfolding replace_with_string_def by (rule replace_from_Cls) simp
  also have "\<dots> = filter (\<lambda>c. \<not> cls_mem neg rs c) s"
    by (induction s) auto
  finally show ?thesis .
qed

lemma replace_function_Plus:
  "replace_with_function (Seq (Cls neg rs) (Star (Cls neg rs))) g s = map_runs (cls_mem neg rs) g s"
  unfolding replace_with_function_def by (rule replace_from_Plus) simp

lemma replace_function_Two:
  "replace_with_function (Seq (Cls neg rs) (Seq (Cls neg rs) (Star (Cls neg rs)))) g s =
     map_runs (cls_mem neg rs) (\<lambda>m. if 2 \<le> length m then g m else m) s"
  unfolding replace_with_function_def by (rule replace_from_Two) simp

lemma replace_trim:
  "replace_with_string (trim_pattern neg rs) [] s = strip_class (cls_mem neg rs) s"
  unfolding replace_with_string_def by (simp add: replace_from_trim)

lemma trim_strip: "trim s = strip_class is_whitespace s"
  by (simp add: trim_def strip_class_def)

section \<open>Runs of separators\<close>

lemma map_runs_cong:
  assumes "\<And>m. m \<noteq> [] \<Longrightarrow> list_all P m \<Longrightarrow> g m = h m"
  shows "map_runs P g s = map_runs P h s"
proof (induction s rule: length_induct)
  case (1 s)
  show ?case
  proof (cases s)
    case Nil
    then show ?thesis by simp
  next
    case (Cons c cs)
    have len: "length (dropWhile P cs) < length s"
      using length_dropWhile_le [of P cs] Cons by simp
    have run: "P c \<Longrightarrow> g (c # takeWhile P cs) = h (c # takeWhile P cs)"
      by (rule assms) (auto simp: list_all_iff dest: set_takeWhileD)
    from 1 len Cons show ?thesis by (auto simp: run)
  qed
qed

lemma map_runs_hd:
  "s \<noteq> [] \<Longrightarrow> \<not> P (hd s) \<Longrightarrow> map_runs P g s = hd s # map_runs P g (tl s)"
  by (cases s) auto

lemma map_runs_all:
  assumes s: "list_all Q s"
    and g: "\<And>m. m \<noteq> [] \<Longrightarrow> list_all P m \<Longrightarrow> list_all Q m \<Longrightarrow> list_all Q (g m)"
  shows "list_all Q (map_runs P g s)"
  using s
proof (induction s rule: length_induct)
  case (1 s)
  show ?case
  proof (cases s)
    case Nil
    then show ?thesis by simp
  next
    case (Cons c cs)
    have len: "length (dropWhile P cs) < length s"
      using length_dropWhile_le [of P cs] Cons by simp
    from "1.prems" Cons have Qs: "Q c" "list_all Q cs" by simp_all
    then have Qd: "list_all Q (dropWhile P cs)" "list_all Q (takeWhile P cs)"
      by (auto simp: list_all_iff dest: set_dropWhileD set_takeWhileD)
    have run: "P c \<Longrightarrow> list_all Q (g (c # takeWhile P cs))"
      using Qs Qd by (intro g) (auto simp: list_all_iff dest: set_takeWhileD)
    from 1 len Cons Qs Qd run show ?thesis by auto
  qed
qed

lemma map_runs_not_adjacent:
  assumes g: "\<And>m. m \<noteq> [] \<Longrightarrow> list_all P m \<Longrightarrow> length (g m) = 1"
  shows "\<not> adjacent P (map_runs P g s)"
proof (induction s rule: length_induct)
  case (1 s)
  show ?case
  proof (cases s)
    case Nil
    then show ?thesis by simp
  next
    case (Cons c cs)
    show ?thesis
    proof (cases "P c")
      case True
      let ?d = "dropWhile P cs"
      have len: "length ?d < length s"
        using length_dropWhile_le [of P cs] Cons by simp
      with 1 have IH: "\<not> adjacent P (map_runs P g ?d)" by simp
      have "length (g (c # takeWhile P cs)) = 1"
        using True by (intro g) (auto simp: list_all_iff dest: set_takeWhileD)
      then obtain d where d: "g (c # takeWhile P cs) = [d]"
        by (cases "g (c # takeWhile P cs)") auto
      have "\<not> adjacent P (d # map_runs P g ?d)"
      proof (cases "?d")
        case Nil
        then show ?thesis by (simp only: map_runs.simps adjacent.simps not_False_eq_True)
      next
        case (Cons e es)
        then have "\<not> P e" by (metis hd_dropWhile list.sel(1) list.distinct(1))
        with Cons IH show ?thesis by (simp add: adjacent_Cons)
      qed
      with True Cons d show ?thesis by simp
    next
      case False
      from 1 Cons have "\<not> adjacent P (map_runs P g cs)" by simp
      with False Cons show ?thesis by (simp add: adjacent_Cons)
    qed
  qed
qed

lemma map_runs_id:
  assumes "\<not> adjacent P s" and g: "\<And>c. P c \<Longrightarrow> g [c] = [c]"
  shows "map_runs P g s = s"
  using assms(1)
proof (induction s)
  case Nil
  show ?case by simp
next
  case (Cons c cs)
  from Cons.prems have na: "\<not> adjacent P cs" by (simp add: adjacent_Cons)
  show ?case
  proof (cases "P c")
    case True
    with Cons.prems have "cs = [] \<or> \<not> P (hd cs)" by (auto simp: adjacent_Cons)
    then have "takeWhile P cs = []" "dropWhile P cs = cs" by (cases cs; auto)+
    with True Cons.IH [OF na] g show ?thesis by simp
  next
    case False
    with Cons.IH [OF na] show ?thesis by simp
  qed
qed

section \<open>Trimming a class at both ends\<close>

lemma strip_class_decompose:
  "\<exists>u v. s = u @ strip_class P s @ v \<and> list_all P u \<and> list_all P v"
proof -
  let ?y = "dropWhile P s"
  have 1: "s = takeWhile P s @ ?y" by simp
  have "rev ?y = takeWhile P (rev ?y) @ dropWhile P (rev ?y)" by simp
  then have "?y = rev (dropWhile P (rev ?y)) @ rev (takeWhile P (rev ?y))"
    by (metis rev_append rev_rev_ident)
  then have "s = takeWhile P s @ strip_class P s @ rev (takeWhile P (rev ?y))"
    unfolding strip_class_def using 1 by metis
  moreover have "list_all P (takeWhile P s)" "list_all P (rev (takeWhile P (rev ?y)))"
    by (auto simp: list_all_iff dest: set_takeWhileD)
  ultimately show ?thesis by blast
qed

lemma strip_class_ends:
  assumes "strip_class P s \<noteq> []"
  shows "\<not> P (hd (strip_class P s))" "\<not> P (last (strip_class P s))"
proof -
  let ?y = "dropWhile P s"
  let ?z = "dropWhile P (rev ?y)"
  from assms have z: "?z \<noteq> []" by (simp add: strip_class_def)
  then have "\<not> P (hd ?z)" by (rule hd_dropWhile)
  with z show "\<not> P (last (strip_class P s))" by (simp add: strip_class_def last_rev)
  from z have y: "?y \<noteq> []" by (metis dropWhile.simps(1) rev_is_Nil_conv)
  then have ny: "\<not> P (hd ?y)" by (rule hd_dropWhile)
  have "rev ?y = takeWhile P (rev ?y) @ ?z" by simp
  then have "?y = rev ?z @ rev (takeWhile P (rev ?y))" by (metis rev_append rev_rev_ident)
  with z have "hd ?y = hd (rev ?z)" by (metis hd_append2 rev_is_Nil_conv)
  with ny show "\<not> P (hd (strip_class P s))" by (simp add: strip_class_def)
qed

lemma adjacent_prefix: "adjacent p u \<Longrightarrow> adjacent p (u @ v)"
  by (induction p u rule: adjacent.induct) auto

lemma strip_class_not_adjacent: "\<not> adjacent p s \<Longrightarrow> \<not> adjacent p (strip_class P s)"
proof -
  assume na: "\<not> adjacent p s"
  obtain u v where "s = u @ strip_class P s @ v" using strip_class_decompose by blast
  then show ?thesis
    using na adjacent_suffix [of p "strip_class P s @ v" u]
      adjacent_prefix [of p "strip_class P s" v]
    by auto
qed

lemma strip_class_subset: "set (strip_class P s) \<subseteq> set s"
proof -
  obtain u v where "s = u @ strip_class P s @ v" using strip_class_decompose by blast
  then show ?thesis by (metis Un_upper1 Un_upper2 set_append subset_trans)
qed

lemma strip_class_id:
  assumes "s \<noteq> []" "\<not> P (hd s)" "\<not> P (last s)"
  shows "strip_class P s = s"
proof -
  from assms have "dropWhile P s = s" by (cases s) auto
  moreover from assms have "dropWhile P (rev s) = rev s"
    by (cases "rev s") (auto simp: last_rev [symmetric] hd_rev)
  ultimately show ?thesis by (simp add: strip_class_def)
qed

text \<open>Collapsing the runs of a class and trimming it leaves words joined by single separators.\<close>

lemma collapse_strip_well_separated:
  assumes all: "list_all (\<lambda>c. a c \<or> p c) s"
    and g1: "\<And>m. m \<noteq> [] \<Longrightarrow> list_all p m \<Longrightarrow> length (g m) = 1"
    and g2: "\<And>m. m \<noteq> [] \<Longrightarrow> list_all p m \<Longrightarrow> list_all (\<lambda>c. a c \<or> p c) (g m)"
    and ne: "strip_class p (map_runs p g s) \<noteq> []"
  shows "well_separated a p (strip_class p (map_runs p g s))"
proof -
  let ?m = "map_runs p g s" and ?z = "strip_class p (map_runs p g s)"
  have "list_all (\<lambda>c. a c \<or> p c) ?m" using all g2 by (intro map_runs_all) auto
  with strip_class_subset [of p ?m] have allz: "list_all (\<lambda>c. a c \<or> p c) ?z"
    by (auto simp: list_all_iff)
  have "\<not> adjacent p ?m" using g1 by (rule map_runs_not_adjacent)
  then have na: "\<not> adjacent p ?z" by (rule strip_class_not_adjacent)
  from strip_class_ends [OF ne] have "\<not> p (hd ?z)" "\<not> p (last ?z)" by simp_all
  moreover from ne have "hd ?z \<in> set ?z" "last ?z \<in> set ?z" by simp_all
  ultimately have "a (hd ?z)" "a (last ?z)" using allz by (auto simp: list_all_iff)
  with ne allz na show ?thesis by (simp add: well_separated_def)
qed

section \<open>The name module: what the patterns mean\<close>

text \<open>The code units that the class built from \<^verbatim>\<open>allowedSpecialChars\<close> contains.\<close>

definition allowed_units :: "name_options \<Rightarrow> jsstring" where
  "allowed_units options =
     concat (case allowedSpecialChars options of None \<Rightarrow> [js '' ''] | Some l \<Rightarrow> l)"

lemma cls_ascii_alnum: "cls_mem False ascii_alnum_ranges = is_ascii_alnum"
  by (rule ext)
     (auto simp: cls_mem_def in_ranges_def ascii_alnum_ranges_def is_ascii_alnum_def
       is_digit_def is_upper_def is_lower_def)

lemma cls_not_alnum_or_allowed:
  "cls_mem True (ascii_alnum_ranges @ map (\<lambda>c. (c, c)) xs) c \<longleftrightarrow>
     \<not> (is_ascii_alnum c \<or> c \<in> set xs)"
proof -
  have "in_ranges (ascii_alnum_ranges @ map (\<lambda>c. (c, c)) xs) c \<longleftrightarrow>
      in_ranges ascii_alnum_ranges c \<or> in_ranges (map (\<lambda>c. (c, c)) xs) c"
    by (simp add: in_ranges_def)
  moreover have "in_ranges ascii_alnum_ranges c = is_ascii_alnum c"
    using cls_ascii_alnum by (simp add: cls_mem_def fun_eq_iff)
  moreover have "in_ranges (map (\<lambda>c. (c, c)) xs) c \<longleftrightarrow> c \<in> set xs"
    using cls_mem_singletons [of xs] by (simp add: cls_mem_def fun_eq_iff)
  ultimately show ?thesis by (simp add: cls_mem_def)
qed

lemma isValidName_test:
  "isValidName (Str s) options =
     Inr (s \<noteq> [] \<and>
          regex_test
            (separated_pattern ascii_alnum_ranges (map (\<lambda>c. (c, c)) (allowed_units options))) s)"
  by (cases "s = []") (simp_all add: isValidName_def Let_def name_test_pattern allowed_units_def)

lemma isValidName_separated:
  assumes "\<And>c. c \<in> set (allowed_units options) \<Longrightarrow> \<not> is_ascii_alnum c"
  shows "isValidName (Str s) options =
           Inr (well_separated is_ascii_alnum (\<lambda>c. c \<in> set (allowed_units options)) s)"
proof -
  have "regex_test
          (separated_pattern ascii_alnum_ranges (map (\<lambda>c. (c, c)) (allowed_units options))) s =
        well_separated is_ascii_alnum (\<lambda>c. c \<in> set (allowed_units options)) s"
    unfolding separated_pattern_def
    using assms
    by (subst regex_test_separated) (auto simp: cls_ascii_alnum cls_mem_singletons)
  then show ?thesis
    by (auto simp: isValidName_test well_separated_def)
qed

lemma firstOfMatch_hd: "m \<noteq> [] \<Longrightarrow> firstOfMatch m = [hd m]"
  by (cases m) (simp_all add: firstOfMatch_def)

text \<open>Collapsing: every run of two or more is replaced by its first code unit.\<close>

definition collapse_to_first :: "(code_unit \<Rightarrow> bool) \<Rightarrow> jsstring \<Rightarrow> jsstring" where
  "collapse_to_first P s = map_runs P (\<lambda>run. if 2 \<le> length run then [hd run] else run) s"

lemma normalizeName_pipeline:
  "normalizeName (Str text) options =
     Inr (strip_class (\<lambda>c. c \<in> set (allowed_units options))
            (collapse_to_first (\<lambda>c. c \<in> set (allowed_units options))
               (filter (\<lambda>c. is_ascii_alnum c \<or> c \<in> set (allowed_units options)) (trim text))))"
proof (cases "text = []")
  case True
  then show ?thesis
    by (simp add: normalizeName_def trim_def strip_class_def collapse_to_first_def)
next
  case False
  define l where "l = (case allowedSpecialChars options of None \<Rightarrow> [js '' ''] | Some l \<Rightarrow> l)"
  define xs where "xs = concat l"
  have xs: "allowed_units options = xs" by (simp add: allowed_units_def xs_def l_def)
  have coll: "map_runs (\<lambda>c. c \<in> set xs) (\<lambda>m. if 2 \<le> length m then firstOfMatch m else m) s =
      collapse_to_first (\<lambda>c. c \<in> set xs) s" for s
    unfolding collapse_to_first_def
    by (rule map_runs_cong) (simp add: firstOfMatch_hd)
  have pats:
    "RegExp (js ''[^a-zA-Z0-9'' @ escapeChars l @ js '']'') =
       Inr (Cls True (ascii_alnum_ranges @ map (\<lambda>c. (c, c)) xs))"
    "RegExp (js ''['' @ escapeChars l @ js '']{2,}'') =
       Inr (Seq (Cls False (map (\<lambda>c. (c, c)) xs))
              (Seq (Cls False (map (\<lambda>c. (c, c)) xs)) (Star (Cls False (map (\<lambda>c. (c, c)) xs)))))"
    "RegExp (js ''^['' @ escapeChars l @ js '']+|['' @ escapeChars l @ js '']+$'') =
       Inr (trim_pattern False (map (\<lambda>c. (c, c)) xs))"
    unfolding xs_def
    by (rule name_remove_pattern name_collapse_pattern name_trim_pattern)+
  from False show ?thesis
    unfolding normalizeName_def Let_def l_def [symmetric] xs
    by (simp add: pats replace_remove_Cls replace_function_Two
        replace_trim cls_not_alnum_or_allowed cls_mem_singletons coll)
qed

section \<open>The name module: the claims\<close>

text \<open>
  The specification's reading of \<^verbatim>\<open>normalizeName\<close> for a set of allowed special characters:
  trim whitespace, delete what is neither alphanumeric nor allowed, collapse each run of
  two or more allowed characters to its first, trim allowed characters at both ends.
\<close>

definition normalizeName_spec :: "code_unit list \<Rightarrow> jsstring \<Rightarrow> jsstring" where
  "normalizeName_spec special text =
     strip_class (\<lambda>c. c \<in> set special)
       (collapse_to_first (\<lambda>c. c \<in> set special)
          (filter (\<lambda>c. is_ascii_alnum c \<or> c \<in> set special) (trim text)))"

lemma allowed_units_singletons [simp]:
  "allowed_units \<lparr>allowedSpecialChars = Some (map (\<lambda>c. [c]) special)\<rparr> = special"
  by (induction special) (simp_all add: allowed_units_def)

lemma allowed_units_default [simp]: "allowed_units \<lparr>allowedSpecialChars = None\<rparr> = [0x20]"
  by (simp add: allowed_units_def js_def)

text \<open>
  C8: for every text and every set of allowed special characters (the entries of
  \<^verbatim>\<open>allowedSpecialChars\<close> are single characters), \<^verbatim>\<open>normalizeName\<close> computes what the
  specification describes, case preserved; by default the set is the space alone, and
  \<^verbatim>\<open>normalizeName("  John   Doe  ")\<close> is \<^verbatim>\<open>"John Doe"\<close>.
\<close>

theorem normalizeName_contract:
  "normalizeName (Str text) \<lparr>allowedSpecialChars = Some (map (\<lambda>c. [c]) special)\<rparr> =
     Inr (normalizeName_spec special text) \<and>
   normalizeName (Str text) \<lparr>allowedSpecialChars = None\<rparr> = Inr (normalizeName_spec [0x20] text) \<and>
   normalizeName (Str (js ''  John   Doe  '')) \<lparr>allowedSpecialChars = None\<rparr> =
     Inr (js ''John Doe'')"
proof -
  have "normalizeName (Str (js ''  John   Doe  '')) \<lparr>allowedSpecialChars = None\<rparr> =
      Inr (js ''John Doe'')"
    by code_simp
  then show ?thesis
    by (simp add: normalizeName_pipeline normalizeName_spec_def)
qed

theorem normalizeName_contract_witness:
  "normalizeName (Str (js ''John . Doe'')) \<lparr>allowedSpecialChars = Some [js '' '', js ''.'']\<rparr> =
     Inr (js ''John Doe'')"
proof -
  have "normalizeName_spec [0x20, 0x2E] (js ''John . Doe'') = js ''John Doe''"
    by code_simp
  with normalizeName_contract [of "js ''John . Doe''" "[0x20, 0x2E]"]
  show ?thesis by (simp add: js_def)
qed

text \<open>
  C10: when every entry of \<^verbatim>\<open>allowedSpecialChars\<close> is a single character that is not
  alphanumeric, a non-empty result of \<^verbatim>\<open>normalizeName\<close> is a valid name under the same
  options.
\<close>

definition single_special_entries :: "name_options \<Rightarrow> bool" where
  "single_special_entries options =
     (case allowedSpecialChars options of
        None \<Rightarrow> True
      | Some l \<Rightarrow> list_all (\<lambda>e. length e = 1 \<and> \<not> is_ascii_alnum (hd e)) l)"

lemma single_special_entries_units:
  assumes "single_special_entries options" "c \<in> set (allowed_units options)"
  shows "\<not> is_ascii_alnum c"
proof (cases "allowedSpecialChars options")
  case None
  with assms(2) have "c = 0x20" by (simp add: allowed_units_def js_def)
  then show ?thesis
    by (simp add: is_ascii_alnum_def is_digit_def is_upper_def is_lower_def)
next
  case (Some l)
  with assms(2) obtain e where e: "e \<in> set l" "c \<in> set e" by (auto simp: allowed_units_def)
  with assms(1) Some have "length e = 1" "\<not> is_ascii_alnum (hd e)"
    by (auto simp: single_special_entries_def list_all_iff)
  with e(2) show ?thesis by (cases e) auto
qed

theorem normalizeName_valid:
  assumes "single_special_entries options"
  shows "\<exists>r. normalizeName (Str text) options = Inr r \<and>
             (r \<noteq> [] \<longrightarrow> isValidName (Str r) options = Inr True)"
proof -
  let ?p = "\<lambda>c. c \<in> set (allowed_units options)"
  let ?g = "\<lambda>run. if 2 \<le> length run then [hd run] else run"
  let ?f = "filter (\<lambda>c. is_ascii_alnum c \<or> ?p c) (trim text)"
  let ?r = "strip_class ?p (map_runs ?p ?g ?f)"
  have r: "normalizeName (Str text) options = Inr ?r"
    by (simp add: normalizeName_pipeline collapse_to_first_def)
  have na: "\<And>c. c \<in> set (allowed_units options) \<Longrightarrow> \<not> is_ascii_alnum c"
    using assms by (rule single_special_entries_units)
  have valid: "isValidName (Str ?r) options = Inr True" if ne: "?r \<noteq> []"
  proof -
    have "well_separated is_ascii_alnum ?p ?r"
    proof (rule collapse_strip_well_separated)
      show "list_all (\<lambda>c. is_ascii_alnum c \<or> ?p c) ?f" by (simp add: list_all_iff)
      show "length (?g m) = 1" if "m \<noteq> []" "list_all ?p m" for m
        using that by (cases m) (auto simp: not_le less_Suc_eq)
      show "list_all (\<lambda>c. is_ascii_alnum c \<or> ?p c) (?g m)" if "m \<noteq> []" "list_all ?p m" for m
        using that by (cases m) (auto simp: list_all_iff)
      show "?r \<noteq> []" by (rule ne)
    qed
    with isValidName_separated [OF na] show ?thesis by simp
  qed
  from r valid show ?thesis by blast
qed

theorem normalizeName_valid_witness:
  "single_special_entries \<lparr>allowedSpecialChars = Some [js '' '', js ''.'']\<rparr> \<and>
   normalizeName (Str (js '' Test  File.text '')) \<lparr>allowedSpecialChars = Some [js '' '', js ''.'']\<rparr>
     = Inr (js ''Test File.text'') \<and>
   isValidName (Str (js ''Test File.text'')) \<lparr>allowedSpecialChars = Some [js '' '', js ''.'']\<rparr>
     = Inr True"
proof -
  have h: "single_special_entries \<lparr>allowedSpecialChars = Some [js '' '', js ''.'']\<rparr>"
    by (simp add: single_special_entries_def js_def is_ascii_alnum_def is_digit_def
        is_upper_def is_lower_def)
  have n: "normalizeName (Str (js '' Test  File.text ''))
      \<lparr>allowedSpecialChars = Some [js '' '', js ''.'']\<rparr> = Inr (js ''Test File.text'')"
    by code_simp
  have ne: "js ''Test File.text'' \<noteq> []" by (simp add: js_def)
  from normalizeName_valid [OF h, of "js '' Test  File.text ''"] n ne
  have "isValidName (Str (js ''Test File.text'')) \<lparr>allowedSpecialChars = Some [js '' '', js ''.'']\<rparr>
      = Inr True"
    by auto
  with h n show ?thesis by blast
qed

text \<open>
  The specification's reading of \<^verbatim>\<open>isValidName\<close>: non-empty, begins and ends with an
  alphanumeric character, every character alphanumeric or allowed, and no two allowed
  characters next to each other.
\<close>

definition valid_name_spec :: "code_unit list \<Rightarrow> jsstring \<Rightarrow> bool" where
  "valid_name_spec special s \<longleftrightarrow>
     s \<noteq> [] \<and> is_ascii_alnum (hd s) \<and> is_ascii_alnum (last s) \<and>
     list_all (\<lambda>c. is_ascii_alnum c \<or> c \<in> set special) s \<and>
     \<not> adjacent (\<lambda>c. c \<in> set special) s"

lemma valid_name_spec_separated:
  "valid_name_spec special s = well_separated is_ascii_alnum (\<lambda>c. c \<in> set special) s"
  by (auto simp: valid_name_spec_def well_separated_def)

text \<open>
  C7 as stated fails where an allowed special character is itself alphanumeric: with
  \<^verbatim>\<open>allowedSpecialChars = ["a"]\<close> the name \<^verbatim>\<open>"aa"\<close> is accepted although two allowed
  characters are adjacent.
\<close>

theorem isValidName_alnum_special_counterexample:
  "isValidName (Str (js ''aa'')) \<lparr>allowedSpecialChars = Some [js ''a'']\<rparr> = Inr True \<and>
   \<not> valid_name_spec [0x61] (js ''aa'')"
proof -
  have "isValidName (Str (js ''aa'')) \<lparr>allowedSpecialChars = Some [js ''a'']\<rparr> = Inr True"
    by code_simp
  moreover have "\<not> valid_name_spec [0x61] (js ''aa'')"
    by (simp add: valid_name_spec_def js_def)
  ultimately show ?thesis by blast
qed

text \<open>
  C7, amended: for every candidate and every set of allowed special characters none of
  which is alphanumeric, \<^verbatim>\<open>isValidName\<close> returns true exactly when the candidate is
  non-empty, begins and ends with an alphanumeric character, consists of alphanumeric and
  allowed characters, and has no two allowed characters adjacent; with the default options
  \<^verbatim>\<open>"John  Doe"\<close> is rejected and \<^verbatim>\<open>"John Doe"\<close> accepted.
\<close>

theorem isValidName_contract:
  "(list_all (\<lambda>c. \<not> is_ascii_alnum c) special \<longrightarrow>
      isValidName (Str candidate) \<lparr>allowedSpecialChars = Some (map (\<lambda>c. [c]) special)\<rparr> =
        Inr (valid_name_spec special candidate)) \<and>
   isValidName (Str candidate) \<lparr>allowedSpecialChars = None\<rparr> =
     Inr (valid_name_spec [0x20] candidate) \<and>
   isValidName (Str (js ''John  Doe'')) \<lparr>allowedSpecialChars = None\<rparr> = Inr False \<and>
   isValidName (Str (js ''John Doe'')) \<lparr>allowedSpecialChars = None\<rparr> = Inr True"
proof -
  have a: "isValidName (Str candidate) \<lparr>allowedSpecialChars = Some (map (\<lambda>c. [c]) special)\<rparr> =
      Inr (valid_name_spec special candidate)" if "list_all (\<lambda>c. \<not> is_ascii_alnum c) special"
  proof -
    let ?O = "\<lparr>allowedSpecialChars = Some (map (\<lambda>c. [c]) special)\<rparr>"
    have "isValidName (Str candidate) ?O =
        Inr (well_separated is_ascii_alnum (\<lambda>c. c \<in> set (allowed_units ?O)) candidate)"
      using that by (intro isValidName_separated) (simp add: list_all_iff)
    then show ?thesis
      by (simp add: valid_name_spec_separated)
  qed
  have b: "isValidName (Str s) \<lparr>allowedSpecialChars = None\<rparr> = Inr (valid_name_spec [0x20] s)" for s
  proof -
    let ?O = "\<lparr>allowedSpecialChars = None\<rparr>"
    have "isValidName (Str s) ?O =
        Inr (well_separated is_ascii_alnum (\<lambda>c. c \<in> set (allowed_units ?O)) s)"
      by (intro isValidName_separated)
         (simp add: is_ascii_alnum_def is_digit_def is_upper_def is_lower_def)
    then show ?thesis
      by (simp add: valid_name_spec_separated)
  qed
  have c: "isValidName (Str (js ''John  Doe'')) \<lparr>allowedSpecialChars = None\<rparr> = Inr False"
    "isValidName (Str (js ''John Doe'')) \<lparr>allowedSpecialChars = None\<rparr> = Inr True"
    by (simp_all add: b valid_name_spec_def js_def is_ascii_alnum_def is_digit_def is_upper_def
        is_lower_def)
  from a b c show ?thesis by blast
qed

theorem isValidName_contract_witness:
  "list_all (\<lambda>c. \<not> is_ascii_alnum c) [0x2E, 0x2D] \<and>
   isValidName (Str (js ''John.-Doe'')) \<lparr>allowedSpecialChars = Some [js ''.'', js ''-'']\<rparr> =
     Inr False \<and>
   isValidName (Str (js ''John-Doe'')) \<lparr>allowedSpecialChars = Some [js ''.'', js ''-'']\<rparr> =
     Inr True"
proof -
  have h: "list_all (\<lambda>c. \<not> is_ascii_alnum c) [0x2E, 0x2D]"
    by (simp add: is_ascii_alnum_def is_digit_def is_upper_def is_lower_def)
  have v: "\<not> valid_name_spec [0x2E, 0x2D] (js ''John.-Doe'')"
    "valid_name_spec [0x2E, 0x2D] (js ''John-Doe'')"
    by (simp_all add: valid_name_spec_def js_def is_ascii_alnum_def is_digit_def is_upper_def
        is_lower_def)
  from isValidName_contract [of "[0x2E, 0x2D]" "js ''John.-Doe''"]
    isValidName_contract [of "[0x2E, 0x2D]" "js ''John-Doe''"] h v
  show ?thesis by (simp add: js_def)
qed

section \<open>The slug module: the patterns built from a one-unit separator\<close>

lemma escaped_unit: "escaped P [c] = (if P c then [0x5C, c] else [c])"
  by simp

lemma class_ranges_unit:
  assumes "\<not> range_follows s"
  shows "class_ranges (escaped slug_special [c] @ s) =
           (case class_ranges s of
              Inl e \<Rightarrow> Inl e
            | Inr (rs, rest) \<Rightarrow> Inr ((c, c) # rs, rest))"
proof (cases "slug_special c")
  case True
  then have at: "class_atom (0x5C # c # s) = Inr (c, s)"
    by (simp add: slug_special_not_alnum)
  show ?thesis
    using True at assms
    by (subst class_ranges.simps) (simp split: sum.splits)
next
  case False
  then have c: "c \<noteq> 0x5C" "c \<noteq> 0x5D" by (auto simp: slug_special_def)
  have at: "class_atom (c # s) = Inr (c, s)" using c(1) by (rule class_atom_plain)
  show ?thesis
    using False c at assms
    by (subst class_ranges.simps) (simp split: sum.splits)
qed

lemma range_follows_other: "d \<noteq> 0x2D \<Longrightarrow> range_follows (d # s) = False"
  by (cases s) auto

lemma class_ranges_dot_close: "class_ranges (0x2E # 0x5D # rest) = Inr ([(0x2E, 0x2E)], rest)"
  by (subst class_ranges.simps) (simp add: class_ranges_close range_follows_other)

lemma class_ranges_escaped_dot_close:
  "class_ranges (0x5C # 0x2E # 0x5D # rest) = Inr ([(0x2E, 0x2E)], rest)"
  by (subst class_ranges.simps)
     (simp add: class_ranges_close range_follows_other is_ascii_alnum_def is_digit_def
       is_upper_def is_lower_def)

lemma negated_unit: "negated (escaped slug_special [c] @ s) = False"
  by (auto simp: slug_special_def)

lemma lex_unit:
  "lex (escaped slug_special [c] @ s) = cons_token (TAtom (chr c)) (lex s)"
proof (cases "slug_special c")
  case True
  then show ?thesis by (simp add: slug_special_not_alnum)
next
  case False
  then show ?thesis by (auto simp: slug_special_def simple_token_def)
qed

lemmas slug_lex_simps =
  RegExp_def js_def lex.simps cons_token_def simple_token_def quantify_def close_frame_def
  class_ranges_close class_ranges_lower_alnum_prefix class_ranges_unit class_ranges_dot_close
  class_ranges_escaped_dot_close negated_unit lex_unit escapeSeparator_escaped
  range_follows_other

lemma slug_remove_pattern:
  "RegExp (js ''[^a-z0-9'' @ escapeSeparator [c] @ (if dots then [0x5C, 0x2E] else []) @ js '']'') =
     Inr (Cls True ([(0x61, 0x7A), (0x30, 0x39), (c, c)] @ (if dots then [(0x2E, 0x2E)] else [])))"
  by (simp add: slug_lex_simps del: escaped_simps)

lemma slug_collapse_dots_pattern:
  "RegExp (js ''['' @ escapeSeparator [c] @ js ''.]+'') =
     Inr (Seq (Cls False [(c, c), (0x2E, 0x2E)]) (Star (Cls False [(c, c), (0x2E, 0x2E)])))"
  by (simp add: slug_lex_simps del: escaped_simps)

lemma slug_collapse_pattern:
  "RegExp (escapeSeparator [c] @ js ''+'') =
     Inr (Seq (Cls False [(c, c)]) (Star (Cls False [(c, c)])))"
  by (simp add: slug_lex_simps chr_def del: escaped_simps)

lemma slug_trim_pattern:
  "RegExp (js ''^['' @ escapeSeparator [c] @ (if dots then [0x5C, 0x2E] else []) @ js '']+|[''
            @ escapeSeparator [c] @ (if dots then [0x5C, 0x2E] else []) @ js '']+$'') =
     Inr (trim_pattern False ([(c, c)] @ (if dots then [(0x2E, 0x2E)] else [])))"
  by (simp add: slug_lex_simps trim_pattern_def del: escaped_simps)

section \<open>The slug module: the stages of the conversion\<close>

text \<open>
  The stages of \<^verbatim>\<open>convertToSlug\<close> as the specification words them, for a separator of one
  code unit: strip the combining marks U+0300 to U+036F; fold the dot into the separator
  unless dots are allowed; replace each run of whitespace and underscores by the
  separator; remove what is neither a lowercase letter, a digit, the separator nor an
  allowed dot; collapse each run of separators and allowed dots to one character, the dot
  if the run has one; trim separators and allowed dots at both ends.
\<close>

definition is_mark :: "code_unit \<Rightarrow> bool" where
  "is_mark c = (0x300 \<le> c \<and> c \<le> 0x36F)"

definition strip_marks :: "jsstring \<Rightarrow> jsstring" where
  "strip_marks s = filter (\<lambda>c. \<not> is_mark c) s"

definition fold_dots :: "code_unit \<Rightarrow> bool \<Rightarrow> jsstring \<Rightarrow> jsstring" where
  "fold_dots sep dots s = (if dots then s else map (\<lambda>c. if c = 0x2E then sep else c) s)"

definition is_space_or_underscore :: "code_unit \<Rightarrow> bool" where
  "is_space_or_underscore c = (is_whitespace c \<or> c = 0x5F)"

definition spaces_to_separator :: "code_unit \<Rightarrow> jsstring \<Rightarrow> jsstring" where
  "spaces_to_separator sep s = map_runs is_space_or_underscore (\<lambda>run. [sep]) s"

definition separator_class :: "code_unit \<Rightarrow> bool \<Rightarrow> code_unit \<Rightarrow> bool" where
  "separator_class sep dots c = (c = sep \<or> (dots \<and> c = 0x2E))"

definition remove_invalid :: "code_unit \<Rightarrow> bool \<Rightarrow> jsstring \<Rightarrow> jsstring" where
  "remove_invalid sep dots s = filter (\<lambda>c. lower_alnum c \<or> separator_class sep dots c) s"

definition collapse_separators :: "code_unit \<Rightarrow> bool \<Rightarrow> jsstring \<Rightarrow> jsstring" where
  "collapse_separators sep dots s =
     map_runs (separator_class sep dots)
       (\<lambda>run. if dots \<and> 0x2E \<in> set run then [0x2E] else [sep]) s"

definition trim_separators :: "code_unit \<Rightarrow> bool \<Rightarrow> jsstring \<Rightarrow> jsstring" where
  "trim_separators sep dots s = strip_class (separator_class sep dots) s"

definition slug_stages :: "code_unit \<Rightarrow> bool \<Rightarrow> jsstring \<Rightarrow> jsstring" where
  "slug_stages sep dots s =
     trim_separators sep dots
       (collapse_separators sep dots
          (remove_invalid sep dots
             (spaces_to_separator sep (fold_dots sep dots (strip_marks s)))))"

lemma replace_unit_Cls:
  "replace_with_string (Cls neg rs) [c] s = map (\<lambda>x. if cls_mem neg rs x then c else x) s"
proof -
  have "replace_with_string (Cls neg rs) [c] s =
      concat (map (\<lambda>x. if cls_mem neg rs x then [c] else [x]) s)"
    unfolding replace_with_string_def by (rule replace_from_Cls) simp
  also have "\<dots> = map (\<lambda>x. if cls_mem neg rs x then c else x) s"
    by (induction s) auto
  finally show ?thesis .
qed

lemma replace_unit_Plus:
  "replace_with_string (Seq (Cls neg rs) (Star (Cls neg rs))) [c] s =
     map_runs (cls_mem neg rs) (\<lambda>run. [c]) s"
  unfolding replace_with_string_def by (rule replace_from_Plus) simp

lemma cls_marks: "cls_mem False [(0x300, 0x36F)] = is_mark"
  by (rule ext) (simp add: cls_mem_def in_ranges_def is_mark_def)

lemma cls_dot: "cls_mem False [(0x2E, 0x2E)] = (\<lambda>c. c = 0x2E)"
  by (rule ext) (auto simp: cls_mem_def in_ranges_def)

lemma cls_spaces: "cls_mem False (whitespace_ranges @ [(0x5F, 0x5F)]) = is_space_or_underscore"
  by (rule ext)
     (auto simp: cls_mem_def in_ranges_def is_space_or_underscore_def is_whitespace_def)

lemma cls_keep:
  "cls_mem True ([(0x61, 0x7A), (0x30, 0x39), (c, c)] @ (if dots then [(0x2E, 0x2E)] else [])) x
     \<longleftrightarrow> \<not> (lower_alnum x \<or> separator_class c dots x)"
  by (auto simp: cls_mem_def in_ranges_def lower_alnum_def is_lower_def is_digit_def
      separator_class_def)

lemma cls_separator:
  "cls_mem False ([(c, c)] @ (if dots then [(0x2E, 0x2E)] else [])) = separator_class c dots"
  by (rule ext) (auto simp: cls_mem_def in_ranges_def separator_class_def)

lemma cls_separator_dot: "cls_mem False [(c, c), (0x2E, 0x2E)] = separator_class c True"
  by (rule ext) (auto simp: cls_mem_def in_ranges_def separator_class_def)

lemma cls_separator_only: "cls_mem False [(c, c)] = separator_class c False"
  by (rule ext) (auto simp: cls_mem_def in_ranges_def separator_class_def)

lemma js_dot: "js ''.'' = [0x2E]"
  by (simp add: js_def)

lemma js_hyphen: "js ''-'' = [0x2D]"
  by (simp add: js_def)

text \<open>What the code computes for a non-empty text and a separator of one code unit.\<close>

lemma convertToSlug_unit:
  assumes "text \<noteq> []"
  shows "convertToSlug P (Str text) \<lparr>separator = Some [c], allowDots = dots\<rparr> =
           Inr (slug_stages c (dots = Some True) (normalizeNFD P (trim (toLowerCase P text))))"
proof (cases "dots = Some True")
  case True
  with assms show ?thesis
    by (simp add: convertToSlug_def Let_def slug_stages_def marksPattern_def dotPattern_def
        spacesPattern_def slug_remove_pattern [of c True, simplified]
        slug_collapse_dots_pattern slug_trim_pattern [of c True, simplified]
        replace_remove_Cls replace_unit_Plus replace_function_Plus replace_trim
        cls_marks cls_spaces cls_keep [of c True, simplified] cls_separator [of c True, simplified]
        cls_separator_dot strip_marks_def fold_dots_def spaces_to_separator_def
        remove_invalid_def collapse_separators_def trim_separators_def js_dot cong: if_cong)
next
  case False
  then have d: "(case dots of None \<Rightarrow> False | Some b \<Rightarrow> b) = False"
    by (cases dots) auto
  from assms False show ?thesis
    by (simp add: convertToSlug_def Let_def d slug_stages_def marksPattern_def dotPattern_def
        spacesPattern_def slug_remove_pattern [of c False, simplified]
        slug_collapse_pattern slug_trim_pattern [of c False, simplified]
        replace_remove_Cls replace_unit_Cls replace_unit_Plus replace_trim
        cls_marks cls_dot cls_spaces cls_keep [of c False, simplified]
        cls_separator [of c False, simplified] cls_separator_only
        strip_marks_def fold_dots_def spaces_to_separator_def
        remove_invalid_def collapse_separators_def trim_separators_def separator_class_def)
qed

lemma convertToSlug_default:
  assumes "text \<noteq> []"
  shows "convertToSlug P (Str text) \<lparr>separator = None, allowDots = dots\<rparr> =
           Inr (slug_stages 0x2D (dots = Some True) (normalizeNFD P (trim (toLowerCase P text))))"
proof -
  have "convertToSlug P (Str text) \<lparr>separator = None, allowDots = dots\<rparr> =
      convertToSlug P (Str text) \<lparr>separator = Some [0x2D], allowDots = dots\<rparr>"
    by (simp add: convertToSlug_def js_hyphen)
  with convertToSlug_unit [OF assms] show ?thesis by simp
qed

lemma convertToSlug_empty: "convertToSlug P (Str []) options = Inr []"
  by (simp add: convertToSlug_def Let_def)

section \<open>The slug module: validity of the result\<close>

lemma slug_separator_class: "slug_separator dots = separator_class 0x2D dots"
  by (rule ext) (simp add: slug_separator_def separator_class_def)

lemma slug_stages_well_separated:
  assumes "slug_stages c dots s \<noteq> []"
  shows "well_separated lower_alnum (separator_class c dots) (slug_stages c dots s)"
  using assms
  unfolding slug_stages_def trim_separators_def collapse_separators_def
proof (rule collapse_strip_well_separated [rotated 3])
  show "list_all (\<lambda>x. lower_alnum x \<or> separator_class c dots x)
      (remove_invalid c dots (spaces_to_separator c (fold_dots c dots (strip_marks s))))"
    by (simp add: remove_invalid_def list_all_iff)
  show "length (if dots \<and> 0x2E \<in> set m then [0x2E] else [c]) = 1" for m :: jsstring
    by simp
  show "list_all (\<lambda>x. lower_alnum x \<or> separator_class c dots x)
      (if dots \<and> 0x2E \<in> set m then [0x2E] else [c])" for m :: jsstring
    by (simp add: separator_class_def)
qed

lemma allowDots_flag: "(case dots of None \<Rightarrow> False | Some b \<Rightarrow> b) = (dots = Some True)"
  by (cases dots) auto

text \<open>
  C1 as stated fails for a separator other than the hyphen, which is the only separator
  \<^verbatim>\<open>isValidSlug\<close> knows: with \<^verbatim>\<open>separator: "_"\<close> the text \<^verbatim>\<open>"a b"\<close> becomes \<^verbatim>\<open>"a_b"\<close>, which
  \<^verbatim>\<open>isValidSlug\<close> rejects under the same options.
\<close>

theorem convertToSlug_underscore_counterexample:
  "convertToSlug latin1_platform (Str (js ''a b'')) \<lparr>separator = Some (js ''_''), allowDots = None\<rparr>
     = Inr (js ''a_b'') \<and>
   js ''a_b'' \<noteq> [] \<and>
   \<not> isValidSlug (Str (js ''a_b'')) \<lparr>separator = Some (js ''_''), allowDots = None\<rparr>"
proof -
  have "convertToSlug latin1_platform (Str (js ''a b''))
      \<lparr>separator = Some (js ''_''), allowDots = None\<rparr> = Inr (js ''a_b'')"
    by code_simp
  moreover have "\<not> isValidSlug (Str (js ''a_b'')) \<lparr>separator = Some (js ''_''), allowDots = None\<rparr>"
    by code_simp
  moreover have "js ''a_b'' \<noteq> []" by (simp add: js_def)
  ultimately show ?thesis by blast
qed

text \<open>
  C1, amended: with the default separator (the hyphen, left out or given), for every text,
  every value of \<^verbatim>\<open>allowDots\<close> and whatever the platform's lowercasing and normalisation
  return, \<^verbatim>\<open>convertToSlug\<close> returns a string, and when that string is not empty
  \<^verbatim>\<open>isValidSlug\<close> accepts it under the same options.
\<close>

theorem convertToSlug_valid:
  assumes "separator options = None \<or> separator options = Some (js ''-'')"
  shows "\<exists>r. convertToSlug P (Str text) options = Inr r \<and>
             (r \<noteq> [] \<longrightarrow> isValidSlug (Str r) options)"
proof (cases "text = []")
  case True
  then show ?thesis by (simp add: convertToSlug_empty)
next
  case False
  obtain sep dots where o: "options = \<lparr>separator = sep, allowDots = dots\<rparr>"
    by (cases options) auto
  let ?r = "slug_stages 0x2D (dots = Some True) (normalizeNFD P (trim (toLowerCase P text)))"
  from assms o have "sep = None \<or> sep = Some [0x2D]" by (simp add: js_hyphen)
  with o False have r: "convertToSlug P (Str text) options = Inr ?r"
    by (auto simp: convertToSlug_default convertToSlug_unit)
  have "isValidSlug (Str ?r) options" if "?r \<noteq> []"
    using slug_stages_well_separated [OF that] o
    by (simp add: isValidSlug_separated allowDots_flag slug_separator_class)
  with r show ?thesis by blast
qed

theorem convertToSlug_valid_witness:
  "(separator \<lparr>separator = None, allowDots = Some True\<rparr> = None \<or>
    separator \<lparr>separator = None, allowDots = Some True\<rparr> = Some (js ''-'')) \<and>
   convertToSlug latin1_platform (Str (js ''My File.-Name''))
     \<lparr>separator = None, allowDots = Some True\<rparr> = Inr (js ''my-file.name'') \<and>
   isValidSlug (Str (js ''my-file.name'')) \<lparr>separator = None, allowDots = Some True\<rparr>"
proof -
  have h: "separator \<lparr>separator = None, allowDots = Some True\<rparr> = None \<or>
      separator \<lparr>separator = None, allowDots = Some True\<rparr> = Some (js ''-'')"
    by simp
  have c: "convertToSlug latin1_platform (Str (js ''My File.-Name''))
      \<lparr>separator = None, allowDots = Some True\<rparr> = Inr (js ''my-file.name'')"
    by code_simp
  have ne: "js ''my-file.name'' \<noteq> []" by (simp add: js_def)
  from convertToSlug_valid [OF h, of latin1_platform "js ''My File.-Name''"] c ne
  have "isValidSlug (Str (js ''my-file.name'')) \<lparr>separator = None, allowDots = Some True\<rparr>"
    by auto
  with h c show ?thesis by blast
qed

section \<open>What the theorems need of the platform\<close>

text \<open>
  Two facts of Unicode that \<^verbatim>\<open>toLowerCase\<close> and \<^verbatim>\<open>normalize('NFD')\<close> satisfy: both leave a
  string of lowercase ASCII letters, digits, hyphens and dots as it is; and both map the
  empty string to itself, while canonical decomposition maps whitespace to whitespace and
  nothing else to it, so that it commutes with \<^verbatim>\<open>trim\<close>.
\<close>

definition ascii_slug_unit :: "code_unit \<Rightarrow> bool" where
  "ascii_slug_unit c = (lower_alnum c \<or> c = 0x2D \<or> c = 0x2E)"

definition keeps_slug_text :: "platform \<Rightarrow> bool" where
  "keeps_slug_text P \<longleftrightarrow>
     (\<forall>s. list_all ascii_slug_unit s \<longrightarrow> toLowerCase P s = s \<and> normalizeNFD P s = s)"

definition normalizes_inside_trim :: "platform \<Rightarrow> bool" where
  "normalizes_inside_trim P \<longleftrightarrow>
     toLowerCase P [] = [] \<and> normalizeNFD P [] = [] \<and>
     (\<forall>s. normalizeNFD P (trim s) = trim (normalizeNFD P s))"

definition slug_unit :: "code_unit \<Rightarrow> code_unit \<Rightarrow> bool" where
  "slug_unit sep c = (lower_alnum c \<or> c = sep \<or> c = 0x2E)"

definition keeps_slug_units :: "platform \<Rightarrow> code_unit \<Rightarrow> bool" where
  "keeps_slug_units P sep \<longleftrightarrow>
     (\<forall>s. list_all (slug_unit sep) s \<longrightarrow> toLowerCase P s = s \<and> normalizeNFD P s = s)"

lemma ascii_slug_unit_bound: "ascii_slug_unit c \<Longrightarrow> c \<le> 0x7A \<and> 0x2D \<le> c"
  by (auto simp: ascii_slug_unit_def lower_alnum_def is_lower_def is_digit_def
      word_le_nat_alt)

lemma latin1_lower_slug_unit: "ascii_slug_unit c \<Longrightarrow> latin1_lower c = c"
  by (auto simp: latin1_lower_def is_upper_def ascii_slug_unit_def lower_alnum_def is_lower_def
      is_digit_def word_le_nat_alt)

lemma latin1_decomposition_small: "c < 0xC0 \<Longrightarrow> latin1_decomposition c = [c]"
  by (auto simp: latin1_decomposition_def)

lemma latin1_decomposition_large: "0xFF < c \<Longrightarrow> latin1_decomposition c = [c]"
  by (auto simp: latin1_decomposition_def)

lemma latin1_keeps_slug_text: "keeps_slug_text latin1_platform"
proof -
  have "map latin1_lower s = s \<and> concat (map latin1_decomposition s) = s"
    if "list_all ascii_slug_unit s" for s
    using that
  proof (induction s)
    case Nil
    show ?case by simp
  next
    case (Cons c s)
    then have c: "ascii_slug_unit c" by simp
    then have "c < 0xC0" using ascii_slug_unit_bound [OF c] by (simp add: word_le_nat_alt word_less_nat_alt)
    with Cons c show ?case
      by (simp add: latin1_lower_slug_unit latin1_decomposition_small)
  qed
  then show ?thesis by (simp add: keeps_slug_text_def latin1_platform_def)
qed

section \<open>The slug module: idempotence\<close>

lemma map_runs_none: "list_all (\<lambda>c. \<not> P c) s \<Longrightarrow> map_runs P g s = s"
  by (induction s) auto

lemma strip_class_none: "list_all (\<lambda>c. \<not> P c) s \<Longrightarrow> strip_class P s = s"
proof -
  assume a: "list_all (\<lambda>c. \<not> P c) s"
  then have "dropWhile P s = s" by (cases s) auto
  moreover from a have "dropWhile P (rev s) = rev s" by (cases "rev s") (auto simp: list_all_iff)
  ultimately show ?thesis by (simp add: strip_class_def)
qed

lemma ascii_slug_unit_plain:
  assumes "ascii_slug_unit c"
  shows "\<not> is_whitespace c" "\<not> is_mark c" "\<not> is_space_or_underscore c"
  using assms
  by (auto simp: ascii_slug_unit_def lower_alnum_def is_lower_def is_digit_def
      is_whitespace_def in_ranges_def whitespace_ranges_def is_mark_def
      is_space_or_underscore_def word_le_nat_alt)

text \<open>The stages after normalisation leave a string of slug units untouched up to collapsing.\<close>

lemma slug_stages_units:
  assumes "list_all ascii_slug_unit s" "dots \<or> 0x2E \<notin> set s"
  shows "slug_stages 0x2D dots s =
           trim_separators 0x2D dots (collapse_separators 0x2D dots s)"
proof -
  from assms(1) have "strip_marks s = s"
    by (auto simp: strip_marks_def list_all_iff filter_id_conv dest: ascii_slug_unit_plain)
  moreover from assms(2) have "fold_dots 0x2D dots s = s"
    by (auto simp: fold_dots_def intro!: map_idI)
  moreover from assms(1) have "spaces_to_separator 0x2D s = s"
    unfolding spaces_to_separator_def
    by (intro map_runs_none) (auto simp: list_all_iff dest: ascii_slug_unit_plain)
  moreover from assms have "remove_invalid 0x2D dots s = s"
    by (auto simp: remove_invalid_def list_all_iff filter_id_conv ascii_slug_unit_def
        separator_class_def)
  ultimately show ?thesis by (simp add: slug_stages_def)
qed

lemma map_runs_class_cong:
  assumes "\<And>x. x \<in> set s \<Longrightarrow> P x = Q x"
  shows "map_runs P g s = map_runs Q g s"
  using assms
proof (induction s rule: length_induct)
  case (1 s)
  show ?case
  proof (cases s)
    case Nil
    then show ?thesis by simp
  next
    case (Cons c cs)
    have len: "length (dropWhile P cs) < length s"
      using length_dropWhile_le [of P cs] Cons by simp
    have eq: "\<And>x. x \<in> set cs \<Longrightarrow> P x = Q x" "P c = Q c"
      using "1.prems" Cons by simp_all
    have t: "takeWhile P cs = takeWhile Q cs" by (rule takeWhile_cong) (simp_all add: eq)
    have d: "dropWhile P cs = dropWhile Q cs" by (rule dropWhile_cong) (simp_all add: eq)
    have "map_runs P g (dropWhile P cs) = map_runs Q g (dropWhile P cs)"
      using 1 len eq(1) by (auto dest: set_dropWhileD)
    moreover have "map_runs P g cs = map_runs Q g cs"
      using 1 Cons eq(1) by simp
    ultimately show ?thesis using Cons eq(2) t d by simp
  qed
qed

lemma adjacent_mono:
  "adjacent p s \<Longrightarrow> (\<And>x. p x \<Longrightarrow> q x) \<Longrightarrow> adjacent q s"
  by (induction p s rule: adjacent.induct) auto

lemma slug_stages_ends:
  assumes "slug_stages c dots s \<noteq> []"
  shows "\<not> separator_class c dots (hd (slug_stages c dots s))"
    "\<not> separator_class c dots (last (slug_stages c dots s))"
  using assms strip_class_ends [of "separator_class c dots"]
  unfolding slug_stages_def trim_separators_def by simp_all

lemma lower_alnum_plain:
  assumes "lower_alnum c"
  shows "\<not> is_whitespace c" "\<not> is_mark c" "\<not> is_space_or_underscore c"
  using assms by (simp_all add: ascii_slug_unit_plain ascii_slug_unit_def)

lemma dot_plain: "\<not> is_mark 0x2E" "\<not> is_space_or_underscore 0x2E" "\<not> lower_alnum 0x2E"
  by (simp_all add: is_mark_def is_space_or_underscore_def is_whitespace_def in_ranges_def
      whitespace_ranges_def lower_alnum_def is_lower_def is_digit_def)

text \<open>A result of the stages is a fixed point of the stages.\<close>

lemma slug_stages_fixed_point:
  assumes all: "list_all (\<lambda>x. lower_alnum x \<or> separator_class c dots x) r"
    and na: "\<not> adjacent (separator_class c dots) r"
    and ne: "r \<noteq> []"
    and ends: "\<not> separator_class c dots (hd r)" "\<not> separator_class c dots (last r)"
    and mark: "\<not> is_mark c"
  shows "slug_stages c dots r = r"
proof -
  let ?p = "separator_class c dots"
  have el: "lower_alnum x \<or> x = c \<or> (dots \<and> x = 0x2E)" if "x \<in> set r" for x
    using all that by (auto simp: list_all_iff separator_class_def)
  have 1: "strip_marks r = r"
    using el mark lower_alnum_plain(2) dot_plain(1)
    by (auto simp: strip_marks_def filter_id_conv)
  have 2: "fold_dots c dots r = r"
  proof (cases dots)
    case True
    then show ?thesis by (simp add: fold_dots_def)
  next
    case False
    have "(if x = 0x2E then c else x) = x" if "x \<in> set r" for x
      using el [OF that] False dot_plain(3) by auto
    then have "map (\<lambda>x. if x = 0x2E then c else x) r = r" by (intro map_idI)
    with False show ?thesis by (simp add: fold_dots_def)
  qed
  have 3: "spaces_to_separator c r = r"
  proof -
    have "map_runs is_space_or_underscore (\<lambda>run. [c]) r =
        map_runs (\<lambda>x. x = c \<and> is_space_or_underscore c) (\<lambda>run. [c]) r"
      using el lower_alnum_plain(3) dot_plain(2) by (intro map_runs_class_cong) auto
    also have "\<dots> = r"
    proof (rule map_runs_id)
      show "\<not> adjacent (\<lambda>x. x = c \<and> is_space_or_underscore c) r"
        using na adjacent_mono [of "\<lambda>x. x = c \<and> is_space_or_underscore c" r ?p]
        by (auto simp: separator_class_def)
    qed simp
    finally show ?thesis by (simp add: spaces_to_separator_def)
  qed
  have 4: "remove_invalid c dots r = r"
    using all by (simp add: remove_invalid_def filter_id_conv list_all_iff)
  have 5: "collapse_separators c dots r = r"
    unfolding collapse_separators_def
    using na by (rule map_runs_id) (auto simp: separator_class_def)
  have 6: "trim_separators c dots r = r"
    unfolding trim_separators_def using ne ends by (rule strip_class_id)
  from 1 2 3 4 5 6 show ?thesis by (simp add: slug_stages_def)
qed

lemma convertToSlug_unit_again:
  assumes mark: "\<not> is_mark c" and P: "keeps_slug_units P c"
    and r: "r = slug_stages c dots x" "r \<noteq> []"
  shows "slug_stages c dots (normalizeNFD P (trim (toLowerCase P r))) = r"
proof -
  let ?p = "separator_class c dots"
  from r have ws: "well_separated lower_alnum ?p r"
    using slug_stages_well_separated [of c dots x] by simp
  then have all: "list_all (\<lambda>x. lower_alnum x \<or> ?p x) r" and na: "\<not> adjacent ?p r"
    and la: "lower_alnum (hd r)" "lower_alnum (last r)"
    by (simp_all add: well_separated_def)
  from r have ends: "\<not> ?p (hd r)" "\<not> ?p (last r)"
    using slug_stages_ends [of c dots x] by simp_all
  from all have "list_all (slug_unit c) r"
    by (auto simp: list_all_iff slug_unit_def separator_class_def)
  with P have "toLowerCase P r = r" "normalizeNFD P r = r"
    by (simp_all add: keeps_slug_units_def)
  moreover have "trim r = r"
    unfolding trim_strip using r(2) la lower_alnum_plain(1)
    by (intro strip_class_id) auto
  moreover have "slug_stages c dots r = r"
    using all na r(2) ends mark by (rule slug_stages_fixed_point)
  ultimately show ?thesis by simp
qed

lemma latin1_keeps_slug_units:
  assumes "c < 0xC0" "\<not> is_upper c"
  shows "keeps_slug_units latin1_platform c"
proof -
  have u: "latin1_lower x = x \<and> latin1_decomposition x = [x]" if "slug_unit c x" for x
  proof -
    from that assms have "x < 0xC0 \<and> \<not> is_upper x"
      by (auto simp: slug_unit_def lower_alnum_def is_lower_def is_digit_def is_upper_def
          word_le_nat_alt word_less_nat_alt)
    then show ?thesis
      by (auto simp: latin1_lower_def latin1_decomposition_small word_le_nat_alt
          word_less_nat_alt)
  qed
  have "map latin1_lower s = s \<and> concat (map latin1_decomposition s) = s"
    if "list_all (slug_unit c) s" for s
    using that by (induction s) (simp_all add: u)
  then show ?thesis by (simp add: keeps_slug_units_def latin1_platform_def)
qed

text \<open>
  C2 as stated fails for a separator that the first steps of the conversion change: with
  \<^verbatim>\<open>separator: "A"\<close> the text \<^verbatim>\<open>"x y"\<close> becomes \<^verbatim>\<open>"xAy"\<close>, and converting that again
  lowercases the separator and gives \<^verbatim>\<open>"xay"\<close>.
\<close>

theorem convertToSlug_uppercase_separator_counterexample:
  "convertToSlug latin1_platform (Str (js ''x y'')) \<lparr>separator = Some (js ''A''), allowDots = None\<rparr>
     = Inr (js ''xAy'') \<and>
   convertToSlug latin1_platform (Str (js ''xAy'')) \<lparr>separator = Some (js ''A''), allowDots = None\<rparr>
     = Inr (js ''xay'') \<and>
   js ''xay'' \<noteq> js ''xAy''"
proof -
  have "convertToSlug latin1_platform (Str (js ''x y''))
      \<lparr>separator = Some (js ''A''), allowDots = None\<rparr> = Inr (js ''xAy'')"
    by code_simp
  moreover have "convertToSlug latin1_platform (Str (js ''xAy''))
      \<lparr>separator = Some (js ''A''), allowDots = None\<rparr> = Inr (js ''xay'')"
    by code_simp
  moreover have "js ''xay'' \<noteq> js ''xAy''" by (simp add: js_def)
  ultimately show ?thesis by blast
qed

text \<open>
  C2, amended: with the default separator, or a separator of one character that is not a
  combining mark U+0300 to U+036F, and any fixed value of \<^verbatim>\<open>allowDots\<close>, converting the result
  of \<^verbatim>\<open>convertToSlug\<close> again returns it unchanged, on a platform whose lowercasing and
  normalisation leave lowercase ASCII letters, digits, dots and the separator as they are
  (which excludes the uppercase separator above).
\<close>

theorem convertToSlug_idempotent:
  assumes sep: "sep = Some [c] \<or> (sep = None \<and> c = 0x2D)"
    and mark: "\<not> is_mark c"
    and P: "keeps_slug_units P c"
  shows "\<exists>r. convertToSlug P (Str text) \<lparr>separator = sep, allowDots = dots\<rparr> = Inr r \<and>
             convertToSlug P (Str r) \<lparr>separator = sep, allowDots = dots\<rparr> = Inr r"
proof (cases "text = []")
  case True
  then show ?thesis by (simp add: convertToSlug_empty)
next
  case False
  let ?d = "dots = Some True"
  let ?r = "slug_stages c ?d (normalizeNFD P (trim (toLowerCase P text)))"
  have conv: "convertToSlug P (Str t) \<lparr>separator = sep, allowDots = dots\<rparr> =
      Inr (slug_stages c ?d (normalizeNFD P (trim (toLowerCase P t))))" if "t \<noteq> []" for t
    using sep that by (auto simp: convertToSlug_default convertToSlug_unit)
  show ?thesis
  proof (cases "?r = []")
    case True
    with conv [OF False] show ?thesis by (simp add: convertToSlug_empty)
  next
    case ne: False
    have "slug_stages c ?d (normalizeNFD P (trim (toLowerCase P ?r))) = ?r"
      using mark P refl ne by (rule convertToSlug_unit_again)
    with conv [OF ne] conv [OF False] show ?thesis by simp
  qed
qed

theorem convertToSlug_idempotent_witness:
  "\<not> is_mark 0x5F \<and> keeps_slug_units latin1_platform 0x5F \<and>
   convertToSlug latin1_platform (Str (js ''Hello  World!''))
     \<lparr>separator = Some (js ''_''), allowDots = None\<rparr> = Inr (js ''hello_world'') \<and>
   convertToSlug latin1_platform (Str (js ''hello_world''))
     \<lparr>separator = Some (js ''_''), allowDots = None\<rparr> = Inr (js ''hello_world'')"
proof -
  have m: "\<not> is_mark (0x5F :: code_unit)" by (simp add: is_mark_def)
  have k: "keeps_slug_units latin1_platform 0x5F"
    by (rule latin1_keeps_slug_units) (simp_all add: is_upper_def)
  have u: "js ''_'' = [0x5F]" by (simp add: js_def)
  have c: "convertToSlug latin1_platform (Str (js ''Hello  World!''))
      \<lparr>separator = Some (js ''_''), allowDots = None\<rparr> = Inr (js ''hello_world'')"
    by code_simp
  from convertToSlug_idempotent [OF _ m k, of "Some [0x5F]" "js ''Hello  World!''" None] c
  have "convertToSlug latin1_platform (Str (js ''hello_world''))
      \<lparr>separator = Some (js ''_''), allowDots = None\<rparr> = Inr (js ''hello_world'')"
    by (auto simp: u)
  with m k c show ?thesis by blast
qed

section \<open>The slug module: collapsing runs when dots are allowed\<close>

lemma map_runs_word_prefix:
  "list_all (\<lambda>c. \<not> P c) u \<Longrightarrow> map_runs P g (u @ y) = u @ map_runs P g y"
  by (induction u) auto

lemma map_runs_run_prefix:
  assumes r: "r \<noteq> []" "list_all P r" and v: "v = [] \<or> \<not> P (hd v)"
  shows "map_runs P g (r @ v) = g r @ map_runs P g v"
proof -
  from r obtain a r' where ar: "r = a # r'" "P a" "list_all P r'" by (cases r) auto
  from v ar(3) have "takeWhile P (r' @ v) = r'" "dropWhile P (r' @ v) = v"
    by (cases v; auto simp: list_all_iff takeWhile_append dropWhile_append)+
  with ar show ?thesis by simp
qed

lemma last_dropWhile: "dropWhile P xs \<noteq> [] \<Longrightarrow> last (dropWhile P xs) = last xs"
  by (metis last_appendR takeWhile_dropWhile_id)

lemma map_runs_split:
  assumes "u = [] \<or> \<not> P (last u)"
  shows "map_runs P g (u @ y) = map_runs P g u @ map_runs P g y"
  using assms
proof (induction u rule: length_induct)
  case (1 u)
  show ?case
  proof (cases u)
    case Nil
    then show ?thesis by simp
  next
    case (Cons a u')
    with "1.prems" have nl: "\<not> P (last (a # u'))" by simp
    show ?thesis
    proof (cases "P a")
      case False
      have "map_runs P g (u' @ y) = map_runs P g u' @ map_runs P g y"
      proof (cases "u' = []")
        case True
        then show ?thesis by simp
      next
        case ne: False
        with nl have "\<not> P (last u')" by simp
        moreover have "length u' < length u" using Cons by simp
        ultimately show ?thesis using "1.IH" by blast
      qed
      with False Cons show ?thesis by simp
    next
      case True
      with nl have ne: "u' \<noteq> []" by auto
      with nl have l: "last u' \<in> set u'" "\<not> P (last u')" by simp_all
      then have t: "takeWhile P (u' @ y) = takeWhile P u'"
        and d: "dropWhile P (u' @ y) = dropWhile P u' @ y"
        by (simp_all add: takeWhile_append1 dropWhile_append1)
      have dn: "dropWhile P u' \<noteq> []" using l by (auto simp: dropWhile_eq_Nil_conv)
      then have "\<not> P (last (dropWhile P u'))" using l(2) by (simp add: last_dropWhile)
      moreover have "length (dropWhile P u') < length u"
        using length_dropWhile_le [of P u'] Cons by simp
      ultimately have "map_runs P g (dropWhile P u' @ y) =
          map_runs P g (dropWhile P u') @ map_runs P g y"
        using "1.IH" by blast
      with True Cons t d show ?thesis by simp
    qed
  qed
qed

text \<open>Every maximal run of the class is replaced by the value of the function at the run.\<close>

lemma map_runs_maximal_run:
  assumes r: "r \<noteq> []" "list_all P r"
    and u: "u = [] \<or> \<not> P (last u)" and v: "v = [] \<or> \<not> P (hd v)"
  shows "map_runs P g (u @ r @ v) = map_runs P g u @ g r @ map_runs P g v"
  using u map_runs_split [of u P g "r @ v"] map_runs_run_prefix [OF r v, of g] by auto

lemma convertToSlug_units_dots:
  assumes P: "keeps_slug_text P" and s: "list_all ascii_slug_unit s"
    and sep: "sep = None \<or> sep = Some (js ''-'')"
  shows "convertToSlug P (Str s) \<lparr>separator = sep, allowDots = Some True\<rparr> =
           Inr (trim_separators 0x2D True (collapse_separators 0x2D True s))"
proof (cases "s = []")
  case True
  then show ?thesis
    by (simp add: convertToSlug_empty trim_separators_def collapse_separators_def strip_class_def)
next
  case False
  from P s have "toLowerCase P s = s" "normalizeNFD P s = s" by (simp_all add: keeps_slug_text_def)
  moreover have "trim s = s"
    unfolding trim_strip using s
    by (intro strip_class_none) (auto simp: list_all_iff dest: ascii_slug_unit_plain)
  moreover have "slug_stages 0x2D True s = trim_separators 0x2D True (collapse_separators 0x2D True s)"
    using s by (intro slug_stages_units) simp_all
  ultimately show ?thesis
    using sep False by (auto simp: convertToSlug_default convertToSlug_unit js_hyphen)
qed

text \<open>
  C6: with \<^verbatim>\<open>allowDots\<close> true, for every text and every separator of one character, a
  maximal run of separators and dots in what the earlier steps leave of the text becomes a
  single dot when the run has a dot, wherever it stands in the run, and a single separator
  otherwise. With the default separator, a text of lowercase letters, digits, hyphens and
  dots is converted by replacing every maximal run of hyphens and dots in that way (and
  trimming both ends), on a platform whose lowercasing and normalisation leave such texts
  as they are; so between two words a run \<open>r\<close> becomes one character, and \<^verbatim>\<open>file.-name\<close> and
  \<^verbatim>\<open>file-.name\<close> both become \<^verbatim>\<open>file.name\<close>.
\<close>

theorem convertToSlug_dot_collapse:
  assumes P: "keeps_slug_text P" and sep: "sep = None \<or> sep = Some (js ''-'')"
  shows
    "(text \<noteq> [] \<and>
      remove_invalid c True
        (spaces_to_separator c (strip_marks (normalizeNFD Q (trim (toLowerCase Q text))))) =
          x @ run @ y \<and>
      run \<noteq> [] \<and> list_all (\<lambda>a. a = c \<or> a = 0x2E) run \<and>
      (x = [] \<or> \<not> (last x = c \<or> last x = 0x2E)) \<and>
      (y = [] \<or> \<not> (hd y = c \<or> hd y = 0x2E)) \<longrightarrow>
        convertToSlug Q (Str text) \<lparr>separator = Some [c], allowDots = Some True\<rparr> =
          Inr (trim_separators c True
                 (collapse_separators c True x @ (if 0x2E \<in> set run then js ''.'' else [c]) @
                  collapse_separators c True y))) \<and>
     (list_all ascii_slug_unit s \<longrightarrow>
        convertToSlug P (Str s) \<lparr>separator = sep, allowDots = Some True\<rparr> =
          Inr (strip_class (\<lambda>c. c = 0x2D \<or> c = 0x2E)
                 (map_runs (\<lambda>c. c = 0x2D \<or> c = 0x2E)
                    (\<lambda>run. if 0x2E \<in> set run then js ''.'' else js ''-'') s))) \<and>
     (u \<noteq> [] \<and> list_all lower_alnum u \<and> v \<noteq> [] \<and> list_all lower_alnum v \<and>
      r \<noteq> [] \<and> list_all (\<lambda>c. c = 0x2D \<or> c = 0x2E) r \<longrightarrow>
        convertToSlug P (Str (u @ r @ v)) \<lparr>separator = sep, allowDots = Some True\<rparr> =
          Inr (u @ (if 0x2E \<in> set r then js ''.'' else js ''-'') @ v)) \<and>
     convertToSlug latin1_platform (Str (js ''file.-name'')) \<lparr>separator = sep, allowDots = Some True\<rparr>
       = Inr (js ''file.name'') \<and>
     convertToSlug latin1_platform (Str (js ''file-.name'')) \<lparr>separator = sep, allowDots = Some True\<rparr>
       = Inr (js ''file.name'')"
proof -
  let ?p = "\<lambda>c. c = 0x2D \<or> c = (0x2E :: code_unit)"
  let ?g = "\<lambda>run. if (0x2E :: code_unit) \<in> set run then js ''.'' else js ''-''"
  have any: "convertToSlug Q (Str text) \<lparr>separator = Some [c], allowDots = Some True\<rparr> =
      Inr (trim_separators c True
             (collapse_separators c True x @ (if 0x2E \<in> set run then js ''.'' else [c]) @
              collapse_separators c True y))"
    if t: "text \<noteq> []"
      and k: "remove_invalid c True
        (spaces_to_separator c (strip_marks (normalizeNFD Q (trim (toLowerCase Q text))))) =
          x @ run @ y"
      and r: "run \<noteq> []" "list_all (\<lambda>a. a = c \<or> a = 0x2E) run"
      and x: "x = [] \<or> \<not> (last x = c \<or> last x = 0x2E)"
      and y: "y = [] \<or> \<not> (hd y = c \<or> hd y = 0x2E)"
  proof -
    let ?q = "separator_class c True"
    let ?h = "\<lambda>run. if True \<and> (0x2E :: code_unit) \<in> set run then [0x2E] else [c]"
    have q: "?q = (\<lambda>a. a = c \<or> a = 0x2E)"
      by (rule ext) (simp add: separator_class_def)
    have "map_runs ?q ?h (x @ run @ y) = map_runs ?q ?h x @ ?h run @ map_runs ?q ?h y"
      using r x y by (intro map_runs_maximal_run) (simp_all add: q)
    then have "collapse_separators c True (x @ run @ y) =
        collapse_separators c True x @ (if 0x2E \<in> set run then js ''.'' else [c]) @
        collapse_separators c True y"
      by (simp add: collapse_separators_def js_dot)
    with convertToSlug_unit [OF t, of Q c "Some True"] k show ?thesis
      by (simp add: slug_stages_def fold_dots_def)
  qed
  have cls: "separator_class 0x2D True = ?p"
    by (rule ext) (simp add: separator_class_def)
  have stage: "trim_separators 0x2D True (collapse_separators 0x2D True x) =
      strip_class ?p (map_runs ?p ?g x)" for x
    by (simp add: trim_separators_def collapse_separators_def cls js_dot js_hyphen
        cong: if_cong)
  have general: "convertToSlug Q (Str x) \<lparr>separator = sep, allowDots = Some True\<rparr> =
      Inr (strip_class ?p (map_runs ?p ?g x))" if "list_all ascii_slug_unit x" "keeps_slug_text Q"
    for Q x
    using convertToSlug_units_dots [OF that(2) that(1) sep] by (simp only: stage)
  have single: "convertToSlug Q (Str (u @ r @ v)) \<lparr>separator = sep, allowDots = Some True\<rparr> =
      Inr (u @ ?g r @ v)"
    if uv: "u \<noteq> []" "list_all lower_alnum u" "v \<noteq> []" "list_all lower_alnum v"
      and r: "r \<noteq> []" "list_all ?p r" and Q: "keeps_slug_text Q" for Q u r v
  proof -
    have np: "lower_alnum c \<Longrightarrow> \<not> ?p c" for c
      using lower_alnum_not_separator [of c True] by (simp add: slug_separator_def)
    from uv r have units: "list_all ascii_slug_unit (u @ r @ v)"
      by (auto simp: list_all_iff ascii_slug_unit_def)
    from uv have nu: "list_all (\<lambda>c. \<not> ?p c) u" "list_all (\<lambda>c. \<not> ?p c) v"
      using np by (auto simp: list_all_iff)
    from uv nu have hv: "v = [] \<or> \<not> ?p (hd v)" by (cases v) auto
    have "map_runs ?p ?g (u @ r @ v) = u @ map_runs ?p ?g (r @ v)"
      using nu(1) by (rule map_runs_word_prefix)
    also have "map_runs ?p ?g (r @ v) = ?g r @ map_runs ?p ?g v"
      using r hv by (rule map_runs_run_prefix)
    also have "map_runs ?p ?g v = v" using nu(2) by (rule map_runs_none)
    finally have m: "map_runs ?p ?g (u @ r @ v) = u @ ?g r @ v" .
    from uv have "lower_alnum (hd (u @ ?g r @ v))" "lower_alnum (last (u @ ?g r @ v))"
      by (cases u; cases v rule: rev_cases; auto simp: list_all_iff)+
    then have "strip_class ?p (u @ ?g r @ v) = u @ ?g r @ v"
      using uv(1) np by (intro strip_class_id) auto
    with general [OF units Q] m show ?thesis by simp
  qed
  have ex1: "convertToSlug latin1_platform (Str (js ''file.-name''))
      \<lparr>separator = sep, allowDots = Some True\<rparr> = Inr (js ''file.name'')"
    using single [of "js ''file''" "js ''name''" "js ''.-''" latin1_platform]
      latin1_keeps_slug_text
    by (simp add: js_def lower_alnum_def is_lower_def is_digit_def)
  have ex2: "convertToSlug latin1_platform (Str (js ''file-.name''))
      \<lparr>separator = sep, allowDots = Some True\<rparr> = Inr (js ''file.name'')"
    using single [of "js ''file''" "js ''name''" "js ''-.''" latin1_platform]
      latin1_keeps_slug_text
    by (simp add: js_def lower_alnum_def is_lower_def is_digit_def)
  from any general [of s P] single [of u v r P] P ex1 ex2 show ?thesis by blast
qed

theorem convertToSlug_dot_collapse_witness:
  "keeps_slug_text latin1_platform \<and>
   convertToSlug latin1_platform (Str (js ''a--.--b-c'')) \<lparr>separator = None, allowDots = Some True\<rparr>
     = Inr (js ''a.b-c'') \<and>
   convertToSlug latin1_platform (Str (js ''My_._File__x''))
     \<lparr>separator = Some (js ''_''), allowDots = Some True\<rparr> = Inr (js ''my.file_x'')"
proof -
  have u: "list_all ascii_slug_unit (js ''a--.--b-c'')"
    by (simp add: js_def ascii_slug_unit_def lower_alnum_def is_lower_def is_digit_def)
  have v: "strip_class (\<lambda>c. c = 0x2D \<or> c = 0x2E)
      (map_runs (\<lambda>c. c = 0x2D \<or> c = 0x2E)
         (\<lambda>run. if 0x2E \<in> set run then js ''.'' else js ''-'') (js ''a--.--b-c'')) = js ''a.b-c''"
    by (simp add: js_def strip_class_def)
  have k: "remove_invalid 0x5F True
      (spaces_to_separator 0x5F (strip_marks (normalizeNFD latin1_platform
         (trim (toLowerCase latin1_platform (js ''My_._File__x'')))))) =
       js ''my'' @ js ''_._'' @ js ''file_x''"
    by code_simp
  have e: "trim_separators 0x5F True
      (collapse_separators 0x5F True (js ''my'') @
       (if 0x2E \<in> set (js ''_._'') then js ''.'' else [0x5F]) @
       collapse_separators 0x5F True (js ''file_x'')) = js ''my.file_x''"
    by code_simp
  from convertToSlug_dot_collapse [OF latin1_keeps_slug_text, of None "js ''a--.--b-c''"] u v
  have a: "convertToSlug latin1_platform (Str (js ''a--.--b-c''))
      \<lparr>separator = None, allowDots = Some True\<rparr> = Inr (js ''a.b-c'')"
    by simp
  have t: "js ''My_._File__x'' \<noteq> []" "js ''_._'' \<noteq> []" "list_all (\<lambda>a. a = 0x5F \<or> a = 0x2E) (js ''_._'')"
    "js ''my'' = [] \<or> \<not> (last (js ''my'') = 0x5F \<or> last (js ''my'') = 0x2E)"
    "js ''file_x'' = [] \<or> \<not> (hd (js ''file_x'') = 0x5F \<or> hd (js ''file_x'') = 0x2E)"
    by (simp_all add: js_def)
  from convertToSlug_dot_collapse [OF latin1_keeps_slug_text, of None "js ''My_._File__x''"
      "0x5F" latin1_platform "js ''my''" "js ''_._''" "js ''file_x''"] k e t
  have b: "convertToSlug latin1_platform (Str (js ''My_._File__x''))
      \<lparr>separator = Some (js ''_''), allowDots = Some True\<rparr> = Inr (js ''my.file_x'')"
    by (simp add: js_def)
  from a b latin1_keeps_slug_text show ?thesis by blast
qed

section \<open>Exceptions\<close>

lemma isValidName_total: "\<exists>b. isValidName v options = Inr b"
proof (cases "\<forall>s. v = Str s \<longrightarrow> s = []")
  case True
  then show ?thesis by (cases v) (auto simp: isValidName_def)
next
  case False
  then obtain s where "v = Str s" by blast
  then show ?thesis by (simp add: isValidName_test)
qed

lemma normalizeName_total: "\<exists>r. normalizeName v options = Inr r"
proof (cases "\<forall>s. v = Str s \<longrightarrow> s = []")
  case True
  then show ?thesis by (cases v) (auto simp: normalizeName_def)
next
  case False
  then obtain s where "v = Str s" by blast
  then show ?thesis by (simp add: normalizeName_pipeline)
qed

lemma convertToSlug_unit_total:
  "\<exists>r. convertToSlug P v \<lparr>separator = Some [c], allowDots = dots\<rparr> = Inr r"
proof (cases "\<forall>s. v = Str s \<longrightarrow> s = []")
  case True
  then show ?thesis by (cases v) (auto simp: convertToSlug_def Let_def)
next
  case False
  then obtain s where "v = Str s" "s \<noteq> []" by blast
  then show ?thesis by (simp add: convertToSlug_unit)
qed

lemma convertToSlug_default_total:
  "\<exists>r. convertToSlug P v \<lparr>separator = None, allowDots = dots\<rparr> = Inr r"
proof (cases "\<forall>s. v = Str s \<longrightarrow> s = []")
  case True
  then show ?thesis by (cases v) (auto simp: convertToSlug_def Let_def)
next
  case False
  then obtain s where "v = Str s" "s \<noteq> []" by blast
  then show ?thesis by (simp add: convertToSlug_default)
qed

text \<open>
  C9 as stated fails: the code compiles patterns from the separator without checking it,
  and \<^verbatim>\<open>new RegExp("+", "g")\<close>, which an empty separator gives, throws a SyntaxError
  (nothing to repeat).
\<close>

theorem convertToSlug_empty_separator_counterexample:
  "convertToSlug latin1_platform (Str (js ''a'')) \<lparr>separator = Some [], allowDots = None\<rparr> =
     Inl SyntaxError"
  by code_simp

text \<open>
  C9, amended: the options argument is left out or is an object of the declared type (a
  call that passes \<^verbatim>\<open>null\<close> or a property of another type is not covered). Then, on an
  input that is not a non-empty string, the predicates return false and the transforms
  return the empty string, without raising; the two patterns of \<^verbatim>\<open>isValidSlug\<close> are
  well-formed literals, so that no step of it raises; \<^verbatim>\<open>isValidName\<close> and \<^verbatim>\<open>normalizeName\<close>
  raise for no input and no such options; \<^verbatim>\<open>convertToSlug\<close> raises for no input when the
  separator is the default or any single code unit.
\<close>

theorem core_never_throws:
  "((\<forall>s. v = Str s \<longrightarrow> s = []) \<longrightarrow>
      isValidSlug v slug_opts = False \<and> isValidName v name_opts = Inr False \<and>
      convertToSlug P v slug_opts = Inr [] \<and> normalizeName v name_opts = Inr []) \<and>
   RegExp (js ''^[a-z0-9]+(?:-[a-z0-9]+)*$'') = Inr slugPattern \<and>
   RegExp (js ''^[a-z0-9]+(?:[-.][a-z0-9]+)*$'') = Inr slugWithDotsPattern \<and>
   (\<exists>b. isValidName v name_opts = Inr b) \<and>
   (\<exists>r. normalizeName v name_opts = Inr r) \<and>
   (\<exists>r. convertToSlug P v \<lparr>separator = None, allowDots = dots\<rparr> = Inr r) \<and>
   (\<exists>r. convertToSlug P v \<lparr>separator = Some [c], allowDots = dots\<rparr> = Inr r)"
proof -
  have "isValidSlug v slug_opts = False \<and> isValidName v name_opts = Inr False \<and>
      convertToSlug P v slug_opts = Inr [] \<and> normalizeName v name_opts = Inr []"
    if "\<forall>s. v = Str s \<longrightarrow> s = []"
    using that
    by (cases v)
       (auto simp: isValidSlug_def isValidName_def convertToSlug_def normalizeName_def Let_def)
  moreover have "RegExp (js ''^[a-z0-9]+(?:-[a-z0-9]+)*$'') = Inr slugPattern"
    by code_simp
  moreover have "RegExp (js ''^[a-z0-9]+(?:[-.][a-z0-9]+)*$'') = Inr slugWithDotsPattern"
    by code_simp
  ultimately show ?thesis
    using isValidName_total normalizeName_total convertToSlug_default_total
      convertToSlug_unit_total
    by blast
qed

theorem core_never_throws_witness:
  "isValidSlug (Number 7) \<lparr>separator = None, allowDots = None\<rparr> = False \<and>
   isValidName (Number 7) \<lparr>allowedSpecialChars = None\<rparr> = Inr False \<and>
   convertToSlug latin1_platform (Number 7) \<lparr>separator = None, allowDots = None\<rparr> = Inr [] \<and>
   normalizeName (Number 7) \<lparr>allowedSpecialChars = None\<rparr> = Inr []"
  using core_never_throws [of "Number 7" "\<lparr>separator = None, allowDots = None\<rparr>"
      "\<lparr>allowedSpecialChars = None\<rparr>" latin1_platform]
  by simp

section \<open>The slug module: trimming whitespace first changes nothing\<close>

lemma map_runs_absorb_Cons:
  assumes a: "P a" and g: "\<And>r. r \<noteq> [] \<Longrightarrow> list_all P r \<Longrightarrow> g (a # r) = g r"
  shows "map_runs P g (a # y) =
           (if y \<noteq> [] \<and> P (hd y) then map_runs P g y else g [a] @ map_runs P g y)"
proof (cases y)
  case Nil
  with a show ?thesis by simp
next
  case (Cons b y')
  show ?thesis
  proof (cases "P b")
    case True
    have "g (a # b # takeWhile P y') = g (b # takeWhile P y')"
      using True by (intro g) (auto simp: list_all_iff dest: set_takeWhileD)
    with a True Cons show ?thesis by simp
  next
    case False
    with a Cons show ?thesis by simp
  qed
qed

lemma map_runs_absorb_snoc:
  assumes a: "P a" and g: "\<And>r. r \<noteq> [] \<Longrightarrow> list_all P r \<Longrightarrow> g (r @ [a]) = g r"
  shows "map_runs P g (y @ [a]) =
           (if y \<noteq> [] \<and> P (last y) then map_runs P g y else map_runs P g y @ g [a])"
proof (induction y rule: length_induct)
  case (1 y)
  show ?case
  proof (cases y)
    case Nil
    with a show ?thesis by simp
  next
    case (Cons b y')
    show ?thesis
    proof (cases "P b")
      case False
      from 1 Cons have IH: "map_runs P g (y' @ [a]) =
          (if y' \<noteq> [] \<and> P (last y') then map_runs P g y' else map_runs P g y' @ g [a])"
        by simp
      from False Cons IH show ?thesis by (cases "y' = []") auto
    next
      case True
      show ?thesis
      proof (cases "list_all P y'")
        case all: True
        have tw: "takeWhile P (y' @ [a]) = y' @ [a]" "dropWhile P (y' @ [a]) = []"
          "takeWhile P y' = y'" "dropWhile P y' = []"
          using a all by (auto simp: list_all_iff takeWhile_append dropWhile_append)
        have ab: "g ((b # y') @ [a]) = g (b # y')"
          using True all by (intro g) simp_all
        have "map_runs P g (b # (y' @ [a])) =
            g (b # takeWhile P (y' @ [a])) @ map_runs P g (dropWhile P (y' @ [a]))"
          using True by simp
        also have "\<dots> = g ((b # y') @ [a])"
          by (simp only: tw map_runs.simps append_Nil2 append_Cons)
        finally have l: "map_runs P g (y @ [a]) = g (b # y')" using ab Cons by simp
        have "map_runs P g (b # y') = g (b # takeWhile P y') @ map_runs P g (dropWhile P y')"
          using True by simp
        also have "\<dots> = g (b # y')"
          by (simp only: tw map_runs.simps append_Nil2)
        finally have r: "map_runs P g y = g (b # y')" using Cons by simp
        have "P (last y)" using True all Cons by (auto simp: list_all_iff)
        with l r Cons show ?thesis by simp
      next
        case nall: False
        let ?d = "dropWhile P y'"
        from nall have dne: "?d \<noteq> []" by (auto simp: list_all_iff)
        have tw: "takeWhile P (y' @ [a]) = takeWhile P y'" "dropWhile P (y' @ [a]) = ?d @ [a]"
          using nall by (auto simp: list_all_iff takeWhile_append dropWhile_append)
        have len: "length ?d < length y" using length_dropWhile_le [of P y'] Cons by simp
        with 1 have IH: "map_runs P g (?d @ [a]) =
            (if ?d \<noteq> [] \<and> P (last ?d) then map_runs P g ?d else map_runs P g ?d @ g [a])"
          by simp
        have "y' = takeWhile P y' @ ?d" by simp
        then have "last y' = last ?d" using dne by (metis last_appendR)
        moreover from dne have "y' \<noteq> []" by auto
        ultimately have l: "last y = last ?d" using Cons by simp
        have "map_runs P g (b # (y' @ [a])) =
            g (b # takeWhile P (y' @ [a])) @ map_runs P g (dropWhile P (y' @ [a]))"
          using True by simp
        also have "\<dots> = g (b # takeWhile P y') @ map_runs P g (?d @ [a])"
          by (simp only: tw)
        finally have lhs: "map_runs P g (y @ [a]) =
            g (b # takeWhile P y') @ map_runs P g (?d @ [a])"
          using Cons by simp
        have rhs: "map_runs P g y = g (b # takeWhile P y') @ map_runs P g ?d"
          using True Cons by simp
        from lhs rhs IH dne l Cons show ?thesis by simp
      qed
    qed
  qed
qed

lemma strip_class_Cons: "P c \<Longrightarrow> strip_class P (c # x) = strip_class P x"
  by (simp add: strip_class_def)

lemma strip_class_snoc: "P c \<Longrightarrow> strip_class P (x @ [c]) = strip_class P x"
proof (cases "list_all P x")
  case True
  assume "P c"
  with True have "list_all P (x @ [c])" by simp
  then have "dropWhile P (x @ [c]) = []" by (simp only: dropWhile_eq_Nil_conv list_all_iff)
  moreover from True have "dropWhile P x = []"
    by (simp only: dropWhile_eq_Nil_conv list_all_iff)
  ultimately show ?thesis by (simp only: strip_class_def rev.simps dropWhile.simps)
next
  case False
  assume "P c"
  with False have "dropWhile P (x @ [c]) = dropWhile P x @ [c]"
    by (auto simp: list_all_iff dropWhile_append)
  with \<open>P c\<close> show ?thesis by (simp add: strip_class_def)
qed

lemma strip_class_pad:
  assumes "list_all P u" "list_all P w"
  shows "strip_class P (u @ x @ w) = strip_class P x"
proof -
  have "strip_class P (x @ w) = strip_class P x" using assms(2)
  proof (induction w rule: rev_induct)
    case Nil
    show ?case by simp
  next
    case (snoc c w)
    then have "P c" "list_all P w" by simp_all
    with snoc.IH strip_class_snoc [of P c "x @ w"] show ?case by simp
  qed
  moreover have "strip_class P (u @ z) = strip_class P z" for z
    using assms(1) by (induction u) (simp_all add: strip_class_Cons)
  ultimately show ?thesis by simp
qed

text \<open>The last three stages swallow a separator at either end.\<close>

definition slug_tail :: "code_unit \<Rightarrow> bool \<Rightarrow> jsstring \<Rightarrow> jsstring" where
  "slug_tail sep dots z =
     trim_separators sep dots (collapse_separators sep dots (remove_invalid sep dots z))"

lemma collapse_absorbs:
  "(if dots \<and> 0x2E \<in> set (c # r) then [0x2E] else [c]) =
   (if dots \<and> 0x2E \<in> set r then [0x2E] else [c :: code_unit])"
  "(if dots \<and> 0x2E \<in> set (r @ [c]) then [0x2E] else [c]) =
   (if dots \<and> 0x2E \<in> set r then [0x2E] else [c :: code_unit])"
  by auto

lemma slug_tail_Cons: "slug_tail c dots (c # z) = slug_tail c dots z"
proof -
  let ?p = "separator_class c dots"
  let ?g = "\<lambda>run. if dots \<and> 0x2E \<in> set run then [0x2E] else [c]"
  let ?z = "remove_invalid c dots z"
  have pc: "?p c" by (simp add: separator_class_def)
  have "remove_invalid c dots (c # z) = c # ?z" using pc by (simp add: remove_invalid_def)
  moreover have "map_runs ?p ?g (c # ?z) =
      (if ?z \<noteq> [] \<and> ?p (hd ?z) then map_runs ?p ?g ?z else ?g [c] @ map_runs ?p ?g ?z)"
    using pc by (rule map_runs_absorb_Cons) (rule collapse_absorbs)
  moreover have "?g [c] = [c]" by auto
  ultimately show ?thesis
    using pc
    by (simp add: slug_tail_def collapse_separators_def trim_separators_def strip_class_Cons)
qed

lemma slug_tail_snoc: "slug_tail c dots (z @ [c]) = slug_tail c dots z"
proof -
  let ?p = "separator_class c dots"
  let ?g = "\<lambda>run. if dots \<and> 0x2E \<in> set run then [0x2E] else [c]"
  let ?z = "remove_invalid c dots z"
  have pc: "?p c" by (simp add: separator_class_def)
  have "remove_invalid c dots (z @ [c]) = ?z @ [c]" using pc by (simp add: remove_invalid_def)
  moreover have "map_runs ?p ?g (?z @ [c]) =
      (if ?z \<noteq> [] \<and> ?p (last ?z) then map_runs ?p ?g ?z else map_runs ?p ?g ?z @ ?g [c])"
    using pc by (rule map_runs_absorb_snoc) (rule collapse_absorbs)
  moreover have "?g [c] = [c]" by auto
  ultimately show ?thesis
    using pc
    by (simp add: slug_tail_def collapse_separators_def trim_separators_def strip_class_snoc)
qed

lemma slug_stages_tail:
  "slug_stages c dots x =
     slug_tail c dots (spaces_to_separator c (fold_dots c dots (strip_marks x)))"
  by (simp add: slug_stages_def slug_tail_def)

lemma whitespace_plain:
  assumes "is_whitespace a"
  shows "\<not> is_mark a" "a \<noteq> 0x2E" "is_space_or_underscore a"
  using assms
  by (auto simp: is_whitespace_def in_ranges_def whitespace_ranges_def is_mark_def
      is_space_or_underscore_def word_le_nat_alt)

lemma slug_stages_ws_Cons:
  assumes "is_whitespace a"
  shows "slug_stages c dots (a # y) = slug_stages c dots y"
proof -
  let ?y = "fold_dots c dots (strip_marks y)"
  let ?Q = is_space_or_underscore
  have "fold_dots c dots (strip_marks (a # y)) = a # ?y"
    using whitespace_plain [OF assms] by (simp add: strip_marks_def fold_dots_def)
  moreover have "map_runs ?Q (\<lambda>run. [c]) (a # ?y) =
      (if ?y \<noteq> [] \<and> ?Q (hd ?y) then map_runs ?Q (\<lambda>run. [c]) ?y
       else [c] @ map_runs ?Q (\<lambda>run. [c]) ?y)"
    using whitespace_plain(3) [OF assms] by (rule map_runs_absorb_Cons) simp
  ultimately show ?thesis
    by (simp add: slug_stages_tail spaces_to_separator_def slug_tail_Cons)
qed

lemma slug_stages_ws_snoc:
  assumes "is_whitespace a"
  shows "slug_stages c dots (y @ [a]) = slug_stages c dots y"
proof -
  let ?y = "fold_dots c dots (strip_marks y)"
  let ?Q = is_space_or_underscore
  have "fold_dots c dots (strip_marks (y @ [a])) = ?y @ [a]"
    using whitespace_plain [OF assms] by (simp add: strip_marks_def fold_dots_def)
  moreover have "map_runs ?Q (\<lambda>run. [c]) (?y @ [a]) =
      (if ?y \<noteq> [] \<and> ?Q (last ?y) then map_runs ?Q (\<lambda>run. [c]) ?y
       else map_runs ?Q (\<lambda>run. [c]) ?y @ [c])"
    using whitespace_plain(3) [OF assms] by (rule map_runs_absorb_snoc) simp
  ultimately show ?thesis
    by (simp add: slug_stages_tail spaces_to_separator_def slug_tail_snoc)
qed

lemma slug_stages_ws_pad:
  assumes "list_all is_whitespace u" "list_all is_whitespace w"
  shows "slug_stages c dots (u @ x @ w) = slug_stages c dots x"
proof -
  have "slug_stages c dots (x @ w) = slug_stages c dots x" using assms(2)
  proof (induction w rule: rev_induct)
    case Nil
    show ?case by simp
  next
    case (snoc a w)
    then have "is_whitespace a" "list_all is_whitespace w" by simp_all
    with snoc.IH slug_stages_ws_snoc [of a c dots "x @ w"] show ?case by simp
  qed
  moreover have "slug_stages c dots (u @ z) = slug_stages c dots z" for z
    using assms(1) by (induction u) (simp_all add: slug_stages_ws_Cons)
  ultimately show ?thesis by simp
qed

lemma slug_stages_trim: "slug_stages c dots (trim x) = slug_stages c dots x"
proof -
  obtain u w where "x = u @ trim x @ w" "list_all is_whitespace u" "list_all is_whitespace w"
    unfolding trim_strip using strip_class_decompose by blast
  then show ?thesis using slug_stages_ws_pad [of u w c dots "trim x"] by simp
qed

section \<open>The slug module: the conversion, stage by stage\<close>

lemma whitespace_outside_table: "is_whitespace c \<Longrightarrow> c < 0xC0 \<or> 0xFF < c"
  by (auto simp: is_whitespace_def in_ranges_def whitespace_ranges_def word_le_nat_alt
      word_less_nat_alt)

lemma latin1_decomposition_whitespace: "is_whitespace c \<Longrightarrow> latin1_decomposition c = [c]"
  using whitespace_outside_table [of c]
  by (auto simp: latin1_decomposition_small latin1_decomposition_large)

lemma latin1_decomposition_ends:
  assumes "\<not> is_whitespace c"
  shows "latin1_decomposition c \<noteq> [] \<and> \<not> is_whitespace (hd (latin1_decomposition c)) \<and>
         \<not> is_whitespace (last (latin1_decomposition c))"
proof (cases "c < 0xC0 \<or> 0xFF < c")
  case True
  then have "latin1_decomposition c = [c]"
    by (auto simp: latin1_decomposition_small latin1_decomposition_large)
  with assms show ?thesis by simp
next
  case False
  have ws: "\<not> is_whitespace 0x41" "\<not> is_whitespace 0x43" "\<not> is_whitespace 0x45"
    "\<not> is_whitespace 0x49" "\<not> is_whitespace 0x4E" "\<not> is_whitespace 0x4F"
    "\<not> is_whitespace 0x55" "\<not> is_whitespace 0x59" "\<not> is_whitespace 0x61"
    "\<not> is_whitespace 0x63" "\<not> is_whitespace 0x65" "\<not> is_whitespace 0x69"
    "\<not> is_whitespace 0x6E" "\<not> is_whitespace 0x6F" "\<not> is_whitespace 0x75"
    "\<not> is_whitespace 0x79" "\<not> is_whitespace 0x300" "\<not> is_whitespace 0x301"
    "\<not> is_whitespace 0x302" "\<not> is_whitespace 0x303" "\<not> is_whitespace 0x308"
    "\<not> is_whitespace 0x30A" "\<not> is_whitespace 0x327"
    by (simp_all add: is_whitespace_def in_ranges_def whitespace_ranges_def)
  from assms ws show ?thesis
    unfolding latin1_decomposition_def by (simp split: if_splits)
qed

lemma latin1_normalizes_inside_trim: "normalizes_inside_trim latin1_platform"
proof -
  let ?n = "\<lambda>s. concat (map latin1_decomposition s)"
  have pad: "?n u = u" if "list_all is_whitespace u" for u
    using that by (induction u) (simp_all add: latin1_decomposition_whitespace)
  have inner: "trim (?n m) = ?n m" if m: "m = [] \<or> (\<not> is_whitespace (hd m) \<and> \<not> is_whitespace (last m))"
    for m
  proof (cases "m = []")
    case True
    then show ?thesis by (simp add: trim_def)
  next
    case False
    then obtain a m' where am: "m = a # m'" by (cases m) auto
    from False obtain m'' b where mb: "m = m'' @ [b]" by (cases m rule: rev_cases) auto
    from m False have hl: "\<not> is_whitespace (hd m)" "\<not> is_whitespace (last m)" by simp_all
    have "hd m = a" by (simp only: am list.sel)
    moreover have "last m = b" by (simp only: mb last_snoc)
    ultimately have ab: "\<not> is_whitespace a" "\<not> is_whitespace b" using hl by simp_all
    from am latin1_decomposition_ends [OF ab(1)]
    have h: "?n m \<noteq> []" "\<not> is_whitespace (hd (?n m))" by auto
    from mb latin1_decomposition_ends [OF ab(2)]
    have l: "\<not> is_whitespace (last (?n m))" by auto
    from h l show ?thesis unfolding trim_strip by (intro strip_class_id)
  qed
  have "?n (trim s) = trim (?n s)" for s
  proof -
    obtain u w where s: "s = u @ trim s @ w" "list_all is_whitespace u" "list_all is_whitespace w"
      unfolding trim_strip using strip_class_decompose by blast
    have ends: "trim s = [] \<or> (\<not> is_whitespace (hd (trim s)) \<and> \<not> is_whitespace (last (trim s)))"
      unfolding trim_strip using strip_class_ends [of is_whitespace s] by blast
    have "?n s = ?n u @ ?n (trim s) @ ?n w" by (subst s(1)) simp
    then have "?n s = u @ ?n (trim s) @ w" using pad s by simp
    then have "trim (?n s) = trim (?n (trim s))"
      unfolding trim_strip using strip_class_pad [OF s(2) s(3), of "?n (strip_class is_whitespace s)"]
      by simp
    with inner [OF ends] show ?thesis by simp
  qed
  then show ?thesis by (simp add: normalizes_inside_trim_def latin1_platform_def)
qed

text \<open>
  The specification's reading of \<^verbatim>\<open>convertToSlug\<close>: lowercase, decompose, then the six
  stages from stripping the marks to trimming the separators.
\<close>

definition slug_spec :: "platform \<Rightarrow> code_unit \<Rightarrow> bool \<Rightarrow> jsstring \<Rightarrow> jsstring" where
  "slug_spec P sep dots text = slug_stages sep dots (normalizeNFD P (toLowerCase P text))"

lemma slug_stages_Nil: "slug_stages c dots [] = []"
  by (simp add: slug_stages_def strip_marks_def fold_dots_def spaces_to_separator_def
      remove_invalid_def collapse_separators_def trim_separators_def strip_class_def)

text \<open>
  C5: for every text, every separator of one code unit (the default hyphen included) and
  both values of \<^verbatim>\<open>allowDots\<close>, \<^verbatim>\<open>convertToSlug\<close> returns what the stages of the specification
  compute in their order; the code also trims whitespace after lowercasing, which the
  later stages make redundant on a platform whose normalisation commutes with \<^verbatim>\<open>trim\<close>.
  With the default options \<^verbatim>\<open>"Hello World!!!"\<close> becomes \<^verbatim>\<open>"hello-world"\<close>, \<^verbatim>\<open>"HELLO"\<close> becomes
  \<^verbatim>\<open>"hello"\<close> and \<^verbatim>\<open>"Caf\<close>U+00E9\<^verbatim>\<open> & Restaurant"\<close> becomes \<^verbatim>\<open>"cafe-restaurant"\<close>.
\<close>

theorem convertToSlug_stages:
  "(normalizes_inside_trim P \<longrightarrow>
      convertToSlug P (Str text) \<lparr>separator = Some [c], allowDots = dots\<rparr> =
        Inr (slug_spec P c (dots = Some True) text) \<and>
      convertToSlug P (Str text) \<lparr>separator = None, allowDots = dots\<rparr> =
        Inr (slug_spec P 0x2D (dots = Some True) text)) \<and>
   convertToSlug latin1_platform (Str (js ''Hello World!!!'')) \<lparr>separator = None, allowDots = None\<rparr>
     = Inr (js ''hello-world'') \<and>
   convertToSlug latin1_platform (Str (js ''HELLO'')) \<lparr>separator = None, allowDots = None\<rparr>
     = Inr (js ''hello'') \<and>
   convertToSlug latin1_platform (Str (js ''Caf'' @ [0xE9] @ js '' & Restaurant''))
     \<lparr>separator = None, allowDots = None\<rparr> = Inr (js ''cafe-restaurant'')"
proof -
  have general: "convertToSlug P (Str text) \<lparr>separator = Some [c], allowDots = dots\<rparr> =
        Inr (slug_spec P c (dots = Some True) text) \<and>
      convertToSlug P (Str text) \<lparr>separator = None, allowDots = dots\<rparr> =
        Inr (slug_spec P 0x2D (dots = Some True) text)"
    if P: "normalizes_inside_trim P"
  proof (cases "text = []")
    case True
    with P show ?thesis
      by (simp add: convertToSlug_empty slug_spec_def normalizes_inside_trim_def slug_stages_Nil)
  next
    case False
    from P have "normalizeNFD P (trim (toLowerCase P text)) =
        trim (normalizeNFD P (toLowerCase P text))"
      by (simp add: normalizes_inside_trim_def)
    with False show ?thesis
      by (simp add: convertToSlug_unit convertToSlug_default slug_spec_def slug_stages_trim)
  qed
  have ex: "convertToSlug latin1_platform (Str (js ''Hello World!!!''))
      \<lparr>separator = None, allowDots = None\<rparr> = Inr (js ''hello-world'')"
    "convertToSlug latin1_platform (Str (js ''HELLO'')) \<lparr>separator = None, allowDots = None\<rparr>
      = Inr (js ''hello'')"
    "convertToSlug latin1_platform (Str (js ''Caf'' @ [0xE9] @ js '' & Restaurant''))
      \<lparr>separator = None, allowDots = None\<rparr> = Inr (js ''cafe-restaurant'')"
    by code_simp+
  from general ex show ?thesis by blast
qed

theorem convertToSlug_stages_witness:
  "normalizes_inside_trim latin1_platform \<and>
   convertToSlug latin1_platform (Str (js ''  Hello World  '')) \<lparr>separator = None, allowDots = None\<rparr>
     = Inr (js ''hello-world'') \<and>
   slug_spec latin1_platform 0x2D False (js ''  Hello World  '') = js ''hello-world''"
proof -
  have s: "slug_spec latin1_platform 0x2D False (js ''  Hello World  '') = js ''hello-world''"
    by code_simp
  from convertToSlug_stages [of latin1_platform "js ''  Hello World  ''" "0x2D" None]
    latin1_normalizes_inside_trim s
  have "convertToSlug latin1_platform (Str (js ''  Hello World  ''))
      \<lparr>separator = None, allowDots = None\<rparr> = Inr (js ''hello-world'')"
    by simp
  with latin1_normalizes_inside_trim s show ?thesis by blast
qed

end
